theory Spec2Isabelle
  imports Main "HOL-Library.Word"
begin

unbundle bit_operations_syntax

section \<open>JavaScript values\<close>

text \<open>
  The interpreter is TypeScript: the alias \<^verbatim>\<open>Uint16\<close> is \<^verbatim>\<open>number\<close>, so every local
  variable holds a JavaScript number and only the two typed arrays \<^verbatim>\<open>memory\<close> and
  \<^verbatim>\<open>registers\<close> hold 16-bit words. Every number in the program is an integer far
  below \<open>2 ^ 31\<close> in magnitude, where \<^verbatim>\<open>&\<close>, \<^verbatim>\<open>^\<close>, \<^verbatim>\<open>~\<close>, \<^verbatim>\<open><<\<close> and \<^verbatim>\<open>>>\<close> agree with
  the bit operations on \<^typ>\<open>int\<close>. Besides numbers, a read of a typed array outside
  its bounds yields \<^verbatim>\<open>undefined\<close>, and \<^verbatim>\<open>charCodeAt(0)\<close> of an empty string yields \<^verbatim>\<open>NaN\<close>.
\<close>

datatype jsval = Undefined | NaN | Num int

text \<open>Storing into a \<^verbatim>\<open>Uint16Array\<close> cell: the number modulo \<open>2 ^ 16\<close>, and 0 for a non-number.\<close>

definition ToUint16 :: "jsval \<Rightarrow> 16 word" where
  "ToUint16 v = (case v of Num n \<Rightarrow> word_of_int n | _ \<Rightarrow> 0)"

text \<open>\<^verbatim>\<open>Buffer.from(array)\<close> keeps the low 8 bits of every entry.\<close>

definition ToUint8 :: "jsval \<Rightarrow> 8 word" where
  "ToUint8 v = (case v of Num n \<Rightarrow> word_of_int n | _ \<Rightarrow> 0)"

text \<open>The operand conversion of the bitwise operators.\<close>

definition ToInt32 :: "jsval \<Rightarrow> int" where
  "ToInt32 v = (case v of Num n \<Rightarrow> signed_take_bit 31 n | _ \<Rightarrow> 0)"

text \<open>The test of \<^verbatim>\<open>if (input)\<close>.\<close>

definition truthy :: "jsval \<Rightarrow> bool" where
  "truthy v = (case v of Num n \<Rightarrow> n \<noteq> 0 | _ \<Rightarrow> False)"

section \<open>Constants of the machine\<close>

abbreviation (input) MEMORY_SIZE :: int where "MEMORY_SIZE \<equiv> 65536"

abbreviation (input) R_R0 :: int where "R_R0 \<equiv> 0"
abbreviation (input) R_R7 :: int where "R_R7 \<equiv> 7"
abbreviation (input) R_PC :: int where "R_PC \<equiv> 8"
abbreviation (input) R_COND :: int where "R_COND \<equiv> 9"
abbreviation (input) R_COUNT :: int where "R_COUNT \<equiv> 10"

abbreviation (input) OP_BR :: int where "OP_BR \<equiv> 0"
abbreviation (input) OP_ADD :: int where "OP_ADD \<equiv> 1"
abbreviation (input) OP_LD :: int where "OP_LD \<equiv> 2"
abbreviation (input) OP_ST :: int where "OP_ST \<equiv> 3"
abbreviation (input) OP_JSR :: int where "OP_JSR \<equiv> 4"
abbreviation (input) OP_AND :: int where "OP_AND \<equiv> 5"
abbreviation (input) OP_LDR :: int where "OP_LDR \<equiv> 6"
abbreviation (input) OP_STR :: int where "OP_STR \<equiv> 7"
abbreviation (input) OP_RTI :: int where "OP_RTI \<equiv> 8"
abbreviation (input) OP_NOT :: int where "OP_NOT \<equiv> 9"
abbreviation (input) OP_LDI :: int where "OP_LDI \<equiv> 10"
abbreviation (input) OP_STI :: int where "OP_STI \<equiv> 11"
abbreviation (input) OP_JMP :: int where "OP_JMP \<equiv> 12"
abbreviation (input) OP_RES :: int where "OP_RES \<equiv> 13"
abbreviation (input) OP_LEA :: int where "OP_LEA \<equiv> 14"
abbreviation (input) OP_TRAP :: int where "OP_TRAP \<equiv> 15"

abbreviation (input) FL_POS :: int where "FL_POS \<equiv> 1"
abbreviation (input) FL_ZRO :: int where "FL_ZRO \<equiv> 2"
abbreviation (input) FL_NEG :: int where "FL_NEG \<equiv> 4"

abbreviation (input) MR_KBSR :: int where "MR_KBSR \<equiv> 0xFE00"
abbreviation (input) MR_KBDR :: int where "MR_KBDR \<equiv> 0xFE02"

abbreviation (input) TRAP_GETC :: int where "TRAP_GETC \<equiv> 0x20"
abbreviation (input) TRAP_OUT :: int where "TRAP_OUT \<equiv> 0x21"
abbreviation (input) TRAP_PUTS :: int where "TRAP_PUTS \<equiv> 0x22"
abbreviation (input) TRAP_IN :: int where "TRAP_IN \<equiv> 0x23"
abbreviation (input) TRAP_PUTSP :: int where "TRAP_PUTSP \<equiv> 0x24"
abbreviation (input) TRAP_HALT :: int where "TRAP_HALT \<equiv> 0x25"

abbreviation (input) PC_START :: int where "PC_START \<equiv> 0x3000"
abbreviation (input) SIGN_BIT :: int where "SIGN_BIT \<equiv> 32768"

section \<open>Machine state\<close>

text \<open>
  What one call of the host's \<^verbatim>\<open>getChar\<close> can do: leave the process (the user typed
  \<^verbatim>\<open>q\<close> and confirmed), return \<^verbatim>\<open>NaN\<close> (the trimmed input is empty, as for the space bar), or return the first
  UTF-16 code unit of the input.
\<close>

datatype key = Quit | Empty | CodeUnit "16 word"

text \<open>
  How a call can end without returning: \<^verbatim>\<open>process.exit(n)\<close>, an uncaught \<^verbatim>\<open>RangeError\<close>,
  a wait for a key that the host never sends, or a loop that never leaves.
\<close>

datatype failure = Exit int | RangeError | Blocked | Diverges

text \<open>
  The global state. \<open>memory\<close> holds the 65536 cells of the \<^verbatim>\<open>Uint16Array\<close> at the indices
  \<open>0 \<le> i < 65536\<close>; \<open>memory_undefined\<close> is the ordinary property \<^verbatim>\<open>memory["undefined"]\<close>
  that an assignment \<^verbatim>\<open>memory[undefined] = val\<close> creates on the array object.
  \<open>registers\<close> holds the ten cells of the register file; every register index in the
  program is a 3-bit field or one of the constants above, so it is always inside the array.
  \<open>keys\<close> are the answers the host will give to the coming calls of \<^verbatim>\<open>getChar\<close>, and
  \<open>stdout\<close> the bytes written to the standard output so far.
\<close>

record machine =
  memory :: "int \<Rightarrow> 16 word"
  memory_undefined :: jsval
  registers :: "int \<Rightarrow> 16 word"
  running :: int
  keys :: "key list"
  stdout :: "8 word list"

text \<open>\<^verbatim>\<open>registers[i]\<close> read and written.\<close>

definition reg_get :: "machine \<Rightarrow> int \<Rightarrow> int" where
  "reg_get s i = uint (registers s i)"

definition reg_set :: "machine \<Rightarrow> int \<Rightarrow> jsval \<Rightarrow> machine" where
  "reg_set s i v = s\<lparr>registers := (registers s)(i := ToUint16 v)\<rparr>"

text \<open>
  \<^verbatim>\<open>memory[k]\<close> read and written. An integer key outside \<open>0 \<le> k < 65536\<close> reads
  \<^verbatim>\<open>undefined\<close> and its write is dropped; the key \<^verbatim>\<open>undefined\<close> names the ordinary property.
\<close>

definition mem_get :: "machine \<Rightarrow> jsval \<Rightarrow> jsval" where
  "mem_get s k =
     (case k of
        Num i \<Rightarrow> if 0 \<le> i \<and> i < MEMORY_SIZE then Num (uint (memory s i)) else Undefined
      | Undefined \<Rightarrow> memory_undefined s
      | NaN \<Rightarrow> Undefined)"

definition mem_set :: "machine \<Rightarrow> jsval \<Rightarrow> jsval \<Rightarrow> machine" where
  "mem_set s k v =
     (case k of
        Num i \<Rightarrow> if 0 \<le> i \<and> i < MEMORY_SIZE then s\<lparr>memory := (memory s)(i := ToUint16 v)\<rparr> else s
      | Undefined \<Rightarrow> s\<lparr>memory_undefined := v\<rparr>
      | NaN \<Rightarrow> s)"

section \<open>Arithmetic primitives\<close>

definition signExtend :: "int \<Rightarrow> nat \<Rightarrow> int" where
  "signExtend x bitCount =
     (let m = push_bit (bitCount - 1) 1;
          x' = x AND (push_bit bitCount 1 - 1)
      in (x' XOR m) - m)"

definition updateFlags :: "int \<Rightarrow> machine \<Rightarrow> machine" where
  "updateFlags r s =
     (if reg_get s r = 0 then reg_set s R_COND (Num FL_ZRO)
      else if reg_get s r AND SIGN_BIT \<noteq> 0 then reg_set s R_COND (Num FL_NEG)
      else reg_set s R_COND (Num FL_POS))"

section \<open>Host input and the memory interface\<close>

definition getChar :: "machine \<Rightarrow> failure + (jsval \<times> machine)" where
  "getChar s =
     (case keys s of
        [] \<Rightarrow> Inl Blocked
      | k # ks \<Rightarrow>
          (case k of
             Quit \<Rightarrow> Inl (Exit 0)
           | Empty \<Rightarrow> Inr (NaN, s\<lparr>keys := ks\<rparr>)
           | CodeUnit c \<Rightarrow> Inr (Num (uint c), s\<lparr>keys := ks\<rparr>)))"

definition memWrite :: "jsval \<Rightarrow> jsval \<Rightarrow> machine \<Rightarrow> machine" where
  "memWrite address val s = mem_set s address val"

definition memRead :: "jsval \<Rightarrow> machine \<Rightarrow> failure + (jsval \<times> machine)" where
  "memRead address s =
     (if address = Num MR_KBSR then
        (case getChar s of
           Inl e \<Rightarrow> Inl e
         | Inr (input, s1) \<Rightarrow>
             let s2 = (if truthy input
                       then mem_set (mem_set s1 (Num MR_KBSR) (Num (push_bit 15 1))) (Num MR_KBDR) input
                       else mem_set s1 (Num MR_KBSR) (Num 0))
             in Inr (mem_get s2 address, s2))
      else Inr (mem_get s address, s))"

section \<open>Instructions\<close>

definition add :: "int \<Rightarrow> machine \<Rightarrow> machine" where
  "add instr s =
     (let r0 = drop_bit 9 instr AND 0x7;
          r1 = drop_bit 6 instr AND 0x7;
          immFlag = drop_bit 5 instr AND 0x1
      in updateFlags r0
           (if immFlag \<noteq> 0 then
              let imm5 = signExtend (instr AND 0x1F) 5
              in reg_set s r0 (Num (reg_get s r1 + imm5))
            else
              let r2 = instr AND 0x7
              in reg_set s r0 (Num (reg_get s r1 + reg_get s r2))))"

definition loadIndirect :: "int \<Rightarrow> machine \<Rightarrow> failure + machine" where
  "loadIndirect instr s =
     (let r0 = drop_bit 9 instr AND 0x7;
          pcOffset = signExtend (instr AND 0x1ff) 9
      in case memRead (Num (reg_get s R_PC + pcOffset)) s of
           Inl e \<Rightarrow> Inl e
         | Inr (p, s1) \<Rightarrow>
             (case memRead p s1 of
                Inl e \<Rightarrow> Inl e
              | Inr (v, s2) \<Rightarrow> Inr (updateFlags r0 (reg_set s2 r0 v))))"

definition abort :: "failure + machine" where
  "abort = Inl (Exit (- 1))"

definition bitwiseAnd :: "int \<Rightarrow> machine \<Rightarrow> machine" where
  "bitwiseAnd instr s =
     (let r0 = drop_bit 9 instr AND 0x7;
          r1 = drop_bit 6 instr AND 0x7;
          immFlag = drop_bit 5 instr AND 0x1
      in updateFlags r0
           (if immFlag \<noteq> 0 then
              let imm5 = signExtend (instr AND 0x1F) 5
              in reg_set s r0 (Num (reg_get s r1 AND imm5))
            else
              let r2 = instr AND 0x7
              in reg_set s r0 (Num (reg_get s r1 AND reg_get s r2))))"

definition bitwiseNot :: "int \<Rightarrow> machine \<Rightarrow> machine" where
  "bitwiseNot instr s =
     (let r0 = drop_bit 9 instr AND 0x7;
          r1 = drop_bit 6 instr AND 0x7
      in updateFlags r0 (reg_set s r0 (Num (NOT (reg_get s r1)))))"

definition branch :: "int \<Rightarrow> machine \<Rightarrow> machine" where
  "branch instr s =
     (let pcOffset = signExtend (instr AND 0x1ff) 9;
          condFlag = drop_bit 9 instr AND 0x7
      in if condFlag AND reg_get s R_COND \<noteq> 0
         then reg_set s R_PC (Num (reg_get s R_PC + pcOffset))
         else s)"

definition jump :: "int \<Rightarrow> machine \<Rightarrow> machine" where
  "jump instr s =
     (let r1 = drop_bit 6 instr AND 0x7
      in reg_set s R_PC (Num (reg_get s r1)))"

definition jumpRegister :: "int \<Rightarrow> machine \<Rightarrow> machine" where
  "jumpRegister instr s =
     (let r1 = drop_bit 6 instr AND 0x7;
          longPCOffset = signExtend (instr AND 0x7ff) 11;
          longFlag = drop_bit 11 instr AND 1;
          s1 = reg_set s R_R7 (Num (reg_get s R_PC))
      in if longFlag \<noteq> 0
         then reg_set s1 R_PC (Num (reg_get s1 R_PC + longPCOffset))
         else reg_set s1 R_PC (Num (reg_get s1 r1)))"

definition load :: "int \<Rightarrow> machine \<Rightarrow> failure + machine" where
  "load instr s =
     (let r0 = drop_bit 9 instr AND 0x7;
          pcOffset = signExtend (instr AND 0x1ff) 9
      in case memRead (Num (reg_get s R_PC + pcOffset)) s of
           Inl e \<Rightarrow> Inl e
         | Inr (v, s1) \<Rightarrow> Inr (updateFlags r0 (reg_set s1 r0 v)))"

definition loadRegister :: "int \<Rightarrow> machine \<Rightarrow> failure + machine" where
  "loadRegister instr s =
     (let r0 = drop_bit 9 instr AND 0x7;
          r1 = drop_bit 6 instr AND 0x7;
          offset = signExtend (instr AND 0x3F) 6
      in case memRead (Num (reg_get s r1 + offset)) s of
           Inl e \<Rightarrow> Inl e
         | Inr (v, s1) \<Rightarrow> Inr (updateFlags r0 (reg_set s1 r0 v)))"

definition loadEffectiveAddress :: "int \<Rightarrow> machine \<Rightarrow> machine" where
  "loadEffectiveAddress instr s =
     (let r0 = drop_bit 9 instr AND 0x7;
          pcOffset = signExtend (instr AND 0x1ff) 9
      in updateFlags r0 (reg_set s r0 (Num (reg_get s R_PC + pcOffset))))"

definition store :: "int \<Rightarrow> machine \<Rightarrow> machine" where
  "store instr s =
     (let r0 = drop_bit 9 instr AND 0x7;
          pcOffset = signExtend (instr AND 0x1ff) 9
      in memWrite (Num (reg_get s R_PC + pcOffset)) (Num (reg_get s r0)) s)"

definition storeIndirect :: "int \<Rightarrow> machine \<Rightarrow> failure + machine" where
  "storeIndirect instr s =
     (let r0 = drop_bit 9 instr AND 0x7;
          pcOffset = signExtend (instr AND 0x1ff) 9
      in case memRead (Num (reg_get s R_PC + pcOffset)) s of
           Inl e \<Rightarrow> Inl e
         | Inr (p, s1) \<Rightarrow> Inr (memWrite p (Num (reg_get s1 r0)) s1))"

definition storeRegister :: "int \<Rightarrow> machine \<Rightarrow> machine" where
  "storeRegister instr s =
     (let r0 = drop_bit 9 instr AND 0x7;
          r1 = drop_bit 6 instr AND 0x7;
          offset = signExtend (instr AND 0x3F) 6
      in memWrite (Num (reg_get s r1 + offset)) (Num (reg_get s r0)) s)"

section \<open>Host output\<close>

text \<open>
  \<^verbatim>\<open>Buffer.from(data).toString('utf8')\<close> decodes the bytes as UTF-8 into a string, and
  \<^verbatim>\<open>process.stdout.write\<close> encodes that string as UTF-8 again. The decoder of the runtime
  follows the UTF-8 decoding algorithm of the Encoding Standard: it keeps the code point
  under construction, the number of continuation bytes seen and needed, and the bounds
  on the next continuation byte, and emits U+FFFD for every ill-formed sequence.
\<close>

type_synonym utf8_state = "nat \<times> nat \<times> nat \<times> 8 word \<times> 8 word"

definition utf8_initial :: utf8_state where
  "utf8_initial = (0, 0, 0, 0x80, 0xBF)"

text \<open>A byte read while no continuation byte is needed: the code points emitted and the next state.\<close>

definition utf8_lead :: "8 word \<Rightarrow> nat list \<times> utf8_state" where
  "utf8_lead b =
     (if b \<le> 0x7F then ([unat b], utf8_initial)
      else if 0xC2 \<le> b \<and> b \<le> 0xDF then ([], (unat (b AND 0x1F), 0, 1, 0x80, 0xBF))
      else if 0xE0 \<le> b \<and> b \<le> 0xEF then
        ([], (unat (b AND 0xF), 0, 2, (if b = 0xE0 then 0xA0 else 0x80), (if b = 0xED then 0x9F else 0xBF)))
      else if 0xF0 \<le> b \<and> b \<le> 0xF4 then
        ([], (unat (b AND 0x7), 0, 3, (if b = 0xF0 then 0x90 else 0x80), (if b = 0xF4 then 0x8F else 0xBF)))
      else ([0xFFFD], utf8_initial))"

fun utf8_decode :: "utf8_state \<Rightarrow> 8 word list \<Rightarrow> nat list" where
  "utf8_decode (cp, seen, needed, lo, hi) [] = (if needed \<noteq> 0 then [0xFFFD] else [])"
| "utf8_decode (cp, seen, needed, lo, hi) (b # bs) =
     (if needed = 0 then fst (utf8_lead b) @ utf8_decode (snd (utf8_lead b)) bs
      else if b < lo \<or> hi < b then 0xFFFD # fst (utf8_lead b) @ utf8_decode (snd (utf8_lead b)) bs
      else
        let cp' = cp * 64 + unat (b AND 0x3F)
        in if seen + 1 \<noteq> needed then utf8_decode (cp', seen + 1, needed, 0x80, 0xBF) bs
           else cp' # utf8_decode utf8_initial bs)"

definition utf8_encode :: "nat \<Rightarrow> 8 word list" where
  "utf8_encode c =
     (if c < 0x80 then [of_nat c]
      else if c < 0x800 then [of_nat (0xC0 + c div 64), of_nat (0x80 + c mod 64)]
      else if c < 0x10000 then
        [of_nat (0xE0 + c div 4096), of_nat (0x80 + c div 64 mod 64), of_nat (0x80 + c mod 64)]
      else
        [of_nat (0xF0 + c div 262144), of_nat (0x80 + c div 4096 mod 64),
         of_nat (0x80 + c div 64 mod 64), of_nat (0x80 + c mod 64)])"

definition putBuf :: "jsval list \<Rightarrow> machine \<Rightarrow> machine" where
  "putBuf data s =
     s\<lparr>stdout := stdout s @ concat (map utf8_encode (utf8_decode utf8_initial (map ToUint8 data)))\<rparr>"

text \<open>\<^verbatim>\<open>console.log\<close> of an ASCII string: its bytes and a line feed.\<close>

definition console_log :: "string \<Rightarrow> machine \<Rightarrow> machine" where
  "console_log msg s = s\<lparr>stdout := stdout s @ map (\<lambda>c. of_nat (of_char c)) msg @ [0x0A]\<rparr>"

section \<open>Trap routines\<close>

text \<open>
  The scan loops of PUTS and PUTSP. \<open>addr\<close> is a JavaScript number: it is not reduced
  modulo \<open>2 ^ 16\<close>, and past the last cell \<^verbatim>\<open>memory[addr]\<close> is \<^verbatim>\<open>undefined\<close>, which is not \<open>0\<close>.
  A loop that never leaves has the value \<open>None\<close>; on the host such a run only ends when
  the runtime gives up on the ever-growing buffer, never by a return of the loop.
\<close>

partial_function (option) puts_loop :: "machine \<Rightarrow> int \<Rightarrow> jsval list \<Rightarrow> jsval list option" where
  "puts_loop s addr buf =
     (if mem_get s (Num addr) \<noteq> Num 0
      then puts_loop s (addr + 1) (buf @ [mem_get s (Num addr)])
      else Some buf)"

partial_function (option) putsp_loop :: "machine \<Rightarrow> int \<Rightarrow> jsval list \<Rightarrow> jsval list option" where
  "putsp_loop s addr buf =
     (if mem_get s (Num addr) \<noteq> Num 0 then
        let char1 = ToInt32 (mem_get s (Num addr)) AND 0xFF;
            char2 = drop_bit 8 (ToInt32 (mem_get s (Num addr)))
        in putsp_loop s (addr + 1) (buf @ [Num char1] @ (if char2 \<noteq> 0 then [Num char2] else []))
      else Some buf)"

definition trapHandler :: "int \<Rightarrow> machine \<Rightarrow> failure + machine" where
  "trapHandler instr s =
     (let vec = instr AND 0xFF in
      if vec = TRAP_GETC then
        (case getChar s of
           Inl e \<Rightarrow> Inl e
         | Inr (c, s1) \<Rightarrow> Inr (reg_set s1 R_R0 c))
      else if vec = TRAP_OUT then Inr (putBuf [Num (reg_get s R_R0)] s)
      else if vec = TRAP_PUTS then
        (case puts_loop s (reg_get s R_R0) [] of
           None \<Rightarrow> Inl Diverges
         | Some buf \<Rightarrow> Inr (putBuf buf s))
      else if vec = TRAP_IN then
        (case getChar (console_log ''Enter a character: '' s) of
           Inl e \<Rightarrow> Inl e
         | Inr (c, s1) \<Rightarrow> Inr (reg_set s1 R_R0 c))
      else if vec = TRAP_PUTSP then
        (case putsp_loop s (reg_get s R_R0) [] of
           None \<Rightarrow> Inl Diverges
         | Some buf \<Rightarrow> Inr (putBuf buf s))
      else if vec = TRAP_HALT then Inr ((console_log ''HALT'' s)\<lparr>running := 0\<rparr>)
      else Inr s)"

section \<open>One turn of the fetch-execute loop\<close>

text \<open>
  The \<^verbatim>\<open>switch (op)\<close> of \<^verbatim>\<open>main\<close>, with \<open>op = instr >> 12\<close>, in the order of its cases.
\<close>

definition dispatch :: "int \<Rightarrow> machine \<Rightarrow> failure + machine" where
  "dispatch instr s =
     (let op = drop_bit 12 instr
      in if op = OP_ADD then Inr (add instr s)
         else if op = OP_AND then Inr (bitwiseAnd instr s)
         else if op = OP_NOT then Inr (bitwiseNot instr s)
         else if op = OP_BR then Inr (branch instr s)
         else if op = OP_JMP then Inr (jump instr s)
         else if op = OP_JSR then Inr (jumpRegister instr s)
         else if op = OP_LD then load instr s
         else if op = OP_LDI then loadIndirect instr s
         else if op = OP_LDR then loadRegister instr s
         else if op = OP_LEA then Inr (loadEffectiveAddress instr s)
         else if op = OP_ST then Inr (store instr s)
         else if op = OP_STI then storeIndirect instr s
         else if op = OP_STR then Inr (storeRegister instr s)
         else if op = OP_TRAP then trapHandler instr s
         else abort)"

text \<open>
  The body of the \<^verbatim>\<open>while (running)\<close> loop of \<^verbatim>\<open>main\<close>: fetch, increment \<open>PC\<close> in its
  16-bit cell, dispatch. Every handler reads \<open>instr\<close> through a bitwise operator only, so
  the operand conversion is applied once at the fetch.
\<close>

definition step :: "machine \<Rightarrow> failure + machine" where
  "step s =
     (case memRead (Num (reg_get s R_PC)) s of
        Inl e \<Rightarrow> Inl e
      | Inr (v, s1) \<Rightarrow>
          let instr = ToInt32 v;
              s2 = reg_set s1 R_PC (Num (reg_get s1 R_PC + 1))
          in dispatch instr s2)"

section \<open>Image loader\<close>

text \<open>\<^verbatim>\<open>buf.readUInt16BE(offset)\<close> throws a \<^verbatim>\<open>RangeError\<close> unless both bytes lie inside the buffer.\<close>

definition readUInt16BE :: "8 word list \<Rightarrow> nat \<Rightarrow> failure + int" where
  "readUInt16BE buf off =
     (if off + 2 \<le> length buf then Inr (uint (buf ! off) * 256 + uint (buf ! (off + 1)))
      else Inl RangeError)"

function readImage_loop :: "8 word list \<Rightarrow> int \<Rightarrow> nat \<Rightarrow> machine \<Rightarrow> failure + machine" where
  "readImage_loop img origin pos s =
     (if (pos + 1) * 2 < length img then
        (case readUInt16BE img ((pos + 1) * 2) of
           Inl e \<Rightarrow> Inl e
         | Inr w \<Rightarrow> readImage_loop img origin (pos + 1) (mem_set s (Num (origin + int pos)) (Num w)))
      else Inr s)"
  by pat_completeness auto
termination
  by (relation "measure (\<lambda>(img, origin, pos, s). length img - (pos + 1) * 2)") auto

declare readImage_loop.simps [simp del]

definition readImage :: "8 word list \<Rightarrow> machine \<Rightarrow> failure + machine" where
  "readImage img s =
     (case readUInt16BE img 0 of
        Inl e \<Rightarrow> Inl e
      | Inr origin \<Rightarrow> readImage_loop img origin 0 s)"

text \<open>
  The object file format that \<open>readImage\<close> parses: a word is the two bytes of its
  big-endian representation, high byte first, as \<open>readUInt16BE\<close> reads it back.
\<close>

definition be_bytes :: "16 word \<Rightarrow> 8 word list" where
  "be_bytes w = [ucast (drop_bit 8 w), ucast w]"

text \<open>The machine before the image is loaded: zeroed arrays, \<open>PC = PC_START\<close>, \<open>running = 1\<close>.\<close>

definition boot :: "key list \<Rightarrow> machine" where
  "boot ks =
     \<lparr>memory = (\<lambda>_. 0), memory_undefined = Undefined,
      registers = (\<lambda>_. 0)(R_PC := word_of_int PC_START),
      running = 1, keys = ks, stdout = []\<rparr>"

section \<open>Basic facts about the register file and the memory\<close>

lemma registers_reg_set: "registers (reg_set s i v) = (registers s)(i := ToUint16 v)"
  by (simp add: reg_set_def)

lemma reg_get_reg_set: "reg_get (reg_set s i v) j = (if j = i then uint (ToUint16 v) else reg_get s j)"
  by (simp add: reg_get_def reg_set_def)

lemma reg_set_other [simp]:
  "memory (reg_set s i v) = memory s" "memory_undefined (reg_set s i v) = memory_undefined s"
  "running (reg_set s i v) = running s" "keys (reg_set s i v) = keys s"
  "stdout (reg_set s i v) = stdout s"
  by (simp_all add: reg_set_def)

lemma mem_set_other [simp]:
  "registers (mem_set s k v) = registers s" "running (mem_set s k v) = running s"
  "keys (mem_set s k v) = keys s" "stdout (mem_set s k v) = stdout s"
  by (simp_all add: mem_set_def split: jsval.splits)

lemma reg_get_mem_set [simp]: "reg_get (mem_set s k v) j = reg_get s j"
  by (simp add: reg_get_def)

lemma mem_get_reg_set [simp]: "mem_get (reg_set s i v) k = mem_get s k"
  by (simp add: mem_get_def split: jsval.splits)

text \<open>A 3-bit field names one of \<open>R0\<close> to \<open>R7\<close>, never \<open>PC\<close> or \<open>COND\<close>.\<close>

lemma field3: "0 \<le> (x::int) AND 7" "x AND 7 \<le> 7" "x AND 7 \<noteq> 8" "x AND 7 \<noteq> 9"
proof -
  show "0 \<le> x AND 7" by simp
  show b: "x AND 7 \<le> 7" by (rule AND_upper2) simp
  from b show "x AND 7 \<noteq> 8" "x AND 7 \<noteq> 9" by arith+
qed

subsection \<open>Sign extension\<close>

lemma xor_pow2_int: "(a::int) XOR 2 ^ k = (if bit a k then a - 2 ^ k else a + 2 ^ k)"
proof -
  have "a XOR 2 ^ k = flip_bit k a"
    by (simp add: flip_bit_eq_xor push_bit_eq_mult)
  also have "\<dots> = (if bit a k then a - 2 ^ k else a + 2 ^ k)"
    by (simp add: flip_bit_eq_if set_bit_eq unset_bit_eq)
  finally show ?thesis .
qed

lemma signExtend_signed_take_bit:
  assumes "0 < n"
  shows "signExtend x n = signed_take_bit (n - 1) x"
proof -
  obtain k where n: "n = Suc k" using assms by (cases n) auto
  have "(take_bit (Suc k) x XOR 2 ^ k) - 2 ^ k = signed_take_bit k x"
    by (simp add: xor_pow2_int bit_take_bit_iff signed_take_bit_eq_take_bit_minus)
  moreover have "push_bit (Suc k) (1::int) - 1 = mask (Suc k)"
    by (simp add: mask_eq_exp_minus_1 push_bit_eq_mult)
  ultimately show ?thesis
    unfolding signExtend_def Let_def n
    by (simp add: take_bit_eq_mask push_bit_eq_mult)
qed

subsection \<open>Condition flags\<close>

lemma sign_bit_test: "(uint (w :: 16 word) AND 32768 \<noteq> 0) = bit w 15"
proof -
  have "(uint w AND 2 ^ 15 = 0) = (\<not> bit (uint w) 15)"
    by (rule and_exp_eq_0_iff_not_bit)
  then show ?thesis by (simp add: bit_uint_iff)
qed

lemma registers_updateFlags:
  "registers (updateFlags r s) =
     (registers s)(R_COND := if registers s r = 0 then 2 else if bit (registers s r) 15 then 4 else 1)"
  by (simp add: updateFlags_def registers_reg_set ToUint16_def sign_bit_test reg_get_def uint_0_iff)

lemma updateFlags_other [simp]:
  "memory (updateFlags r s) = memory s" "memory_undefined (updateFlags r s) = memory_undefined s"
  "running (updateFlags r s) = running s" "keys (updateFlags r s) = keys s"
  "stdout (updateFlags r s) = stdout s"
  by (simp_all add: updateFlags_def)

lemma sint_pos_iff: "(0 < sint (w :: 16 word)) = (w \<noteq> 0 \<and> \<not> bit w 15)"
proof -
  have "(sint w < 0) = bit w 15"
    using bit_last_iff [of w] by simp
  moreover have "(sint w = 0) = (w = 0)"
    by (rule signed_eq_0_iff)
  ultimately show ?thesis by auto
qed

lemma updateFlags_agree:
  assumes "r \<noteq> R_COND" and "s' = updateFlags r s"
  shows "reg_get s' R_COND \<in> {FL_POS, FL_ZRO, FL_NEG} \<and>
    (reg_get s' R_COND = FL_POS \<longleftrightarrow> 0 < sint (registers s' r)) \<and>
    (reg_get s' R_COND = FL_ZRO \<longleftrightarrow> registers s' r = 0) \<and>
    (reg_get s' R_COND = FL_NEG \<longleftrightarrow> bit (registers s' r) 15)"
proof -
  have "bit (registers s r) 15 \<Longrightarrow> registers s r \<noteq> 0" by auto
  then show ?thesis
    using assms by (auto simp add: registers_updateFlags reg_get_def sint_pos_iff)
qed

text \<open>Every flag-setting handler that returns ends with \<open>updateFlags\<close> on the destination register.\<close>

lemma add_ends: "\<exists>s1. add instr s = updateFlags (drop_bit 9 instr AND 0x7) s1"
  by (simp add: add_def Let_def) blast

lemma bitwiseAnd_ends: "\<exists>s1. bitwiseAnd instr s = updateFlags (drop_bit 9 instr AND 0x7) s1"
  by (simp add: bitwiseAnd_def Let_def) blast

lemma bitwiseNot_ends: "\<exists>s1. bitwiseNot instr s = updateFlags (drop_bit 9 instr AND 0x7) s1"
  by (simp add: bitwiseNot_def Let_def) blast

lemma loadEffectiveAddress_ends:
  "\<exists>s1. loadEffectiveAddress instr s = updateFlags (drop_bit 9 instr AND 0x7) s1"
  by (simp add: loadEffectiveAddress_def Let_def) blast

lemma load_ends: "load instr s = Inr s' \<Longrightarrow> \<exists>s1. s' = updateFlags (drop_bit 9 instr AND 0x7) s1"
  by (auto simp add: load_def Let_def split: sum.splits)

lemma loadRegister_ends:
  "loadRegister instr s = Inr s' \<Longrightarrow> \<exists>s1. s' = updateFlags (drop_bit 9 instr AND 0x7) s1"
  by (auto simp add: loadRegister_def Let_def split: sum.splits)

lemma loadIndirect_ends:
  "loadIndirect instr s = Inr s' \<Longrightarrow> \<exists>s1. s' = updateFlags (drop_bit 9 instr AND 0x7) s1"
  by (auto simp add: loadIndirect_def Let_def split: sum.splits)

subsection \<open>The memory interface\<close>

lemma getChar_frame:
  assumes "getChar s = Inr (c, s1)"
  shows "registers s1 = registers s" "memory s1 = memory s" "memory_undefined s1 = memory_undefined s"
    "running s1 = running s" "stdout s1 = stdout s"
  using assms by (auto simp add: getChar_def split: list.splits key.splits)

lemma memRead_pure: "address \<noteq> Num MR_KBSR \<Longrightarrow> memRead address s = Inr (mem_get s address, s)"
  by (simp add: memRead_def)

lemma memRead_registers:
  assumes "memRead address s = Inr (v, s1)"
  shows "registers s1 = registers s"
  using assms
  by (auto simp add: memRead_def Let_def getChar_frame split: if_splits sum.splits)

lemma memRead_KBSR:
  assumes "memRead (Num MR_KBSR) s = Inr (v, s')"
  shows "registers s' = registers s \<and> running s' = running s \<and> stdout s' = stdout s \<and>
    memory_undefined s' = memory_undefined s \<and>
    (\<forall>a. a \<noteq> MR_KBSR \<and> a \<noteq> MR_KBDR \<longrightarrow> memory s' a = memory s a) \<and>
    v = Num (uint (memory s' MR_KBSR)) \<and>
    ((\<exists>c. keys s = CodeUnit c # keys s' \<and> c \<noteq> 0 \<and>
          memory s' MR_KBSR = 0x8000 \<and> memory s' MR_KBDR = c) \<or>
     ((keys s = Empty # keys s' \<or> keys s = CodeUnit 0 # keys s') \<and>
          memory s' MR_KBSR = 0 \<and> memory s' MR_KBDR = memory s MR_KBDR))"
proof (cases "keys s")
  case Nil
  then show ?thesis using assms by (simp add: memRead_def getChar_def)
next
  case (Cons k ks)
  show ?thesis
  proof (cases k)
    case Quit
    then show ?thesis using assms Cons by (simp add: memRead_def getChar_def)
  next
    case Empty
    then show ?thesis using assms Cons
      by (auto simp add: memRead_def getChar_def truthy_def mem_set_def mem_get_def ToUint16_def)
  next
    case (CodeUnit c)
    then show ?thesis using assms Cons
      by (auto simp add: memRead_def getChar_def truthy_def mem_set_def mem_get_def ToUint16_def
          uint_0_iff split: if_splits)
  qed
qed

lemma ToInt32_uint: "ToInt32 (Num (uint (w :: 16 word))) = uint w"
proof -
  have "uint w < 2 ^ 16" using uint_lt2p [of w] by simp
  also have "\<dots> < (2 ^ 31 :: int)" by simp
  finally have hi: "uint w < 2 ^ 31" .
  have "- (2 ^ 31) \<le> (0 :: int)" by simp
  also have "0 \<le> uint w" by simp
  finally have lo: "- (2 ^ 31) \<le> uint w" .
  show ?thesis using lo hi by (simp add: ToInt32_def signed_take_bit_int_eq_self)
qed

lemma uint_ToUint16: "uint (ToUint16 (Num n)) = n mod 65536"
  by (simp add: ToUint16_def uint_word_of_int)

lemma reg_get_updateFlags: "j \<noteq> R_COND \<Longrightarrow> reg_get (updateFlags r s) j = reg_get s j"
  by (simp add: reg_get_def registers_updateFlags)

lemma memRead_word:
  assumes "memRead (Num a) s = Inr (v, s1)" "0 \<le> a" "a < MEMORY_SIZE"
  shows "\<exists>w :: 16 word. v = Num (uint w)"
  using assms
  by (auto simp add: memRead_def Let_def mem_get_def split: if_splits sum.splits)

lemma reg_get_range: "0 \<le> reg_get s r" "reg_get s r < MEMORY_SIZE"
  using uint_lt2p [of "registers s r"] by (simp_all add: reg_get_def)

text \<open>When a read, and with it a load, returns.\<close>

lemma memRead_returns:
  assumes "address \<noteq> Num MR_KBSR \<or> (\<exists>k ks. keys s = k # ks \<and> k \<noteq> Quit)"
  shows "\<exists>v s1. memRead address s = Inr (v, s1)"
proof (cases "address = Num MR_KBSR")
  case False
  then show ?thesis by (simp add: memRead_def)
next
  case True
  with assms obtain k ks where "keys s = k # ks" "k \<noteq> Quit" by auto
  then show ?thesis
    using True by (cases k) (simp_all add: memRead_def getChar_def Let_def)
qed

lemma memRead_KBSR_value:
  assumes "memRead (Num MR_KBSR) s = Inr (v, s1)"
  shows "v \<noteq> Num MR_KBSR"
  using memRead_KBSR [OF assms] by auto

lemma load_returns:
  assumes "reg_get s R_PC + signExtend (instr AND 0x1ff) 9 \<noteq> MR_KBSR \<or>
    (\<exists>k ks. keys s = k # ks \<and> k \<noteq> Quit)"
  shows "\<exists>t. load instr s = Inr t"
proof -
  obtain v s1 where "memRead (Num (reg_get s R_PC + signExtend (instr AND 0x1ff) 9)) s = Inr (v, s1)"
    using memRead_returns [of "Num (reg_get s R_PC + signExtend (instr AND 0x1ff) 9)" s] assms
    by auto
  then show ?thesis by (simp add: load_def Let_def)
qed

lemma loadRegister_returns:
  assumes "reg_get s (drop_bit 6 instr AND 0x7) + signExtend (instr AND 0x3F) 6 \<noteq> MR_KBSR \<or>
    (\<exists>k ks. keys s = k # ks \<and> k \<noteq> Quit)"
  shows "\<exists>t. loadRegister instr s = Inr t"
proof -
  obtain v s1 where
    "memRead (Num (reg_get s (drop_bit 6 instr AND 0x7) + signExtend (instr AND 0x3F) 6)) s = Inr (v, s1)"
    using memRead_returns
      [of "Num (reg_get s (drop_bit 6 instr AND 0x7) + signExtend (instr AND 0x3F) 6)" s] assms
    by auto
  then show ?thesis by (simp add: loadRegister_def Let_def)
qed

lemma loadIndirect_returns:
  assumes "(reg_get s R_PC + signExtend (instr AND 0x1ff) 9 \<noteq> MR_KBSR \<and>
      mem_get s (Num (reg_get s R_PC + signExtend (instr AND 0x1ff) 9)) \<noteq> Num MR_KBSR) \<or>
    (\<exists>k ks. keys s = k # ks \<and> k \<noteq> Quit)"
  shows "\<exists>t. loadIndirect instr s = Inr t"
proof -
  let ?a = "Num (reg_get s R_PC + signExtend (instr AND 0x1ff) 9)"
  have first: "?a \<noteq> Num MR_KBSR \<or> (\<exists>k ks. keys s = k # ks \<and> k \<noteq> Quit)"
    using assms by auto
  obtain p s1 where p: "memRead ?a s = Inr (p, s1)"
    using memRead_returns [OF first] by auto
  have second: "p \<noteq> Num MR_KBSR \<or> (\<exists>k ks. keys s1 = k # ks \<and> k \<noteq> Quit)"
  proof (cases "?a = Num MR_KBSR")
    case True
    with p have "p \<noteq> Num MR_KBSR" by (auto dest: memRead_KBSR_value)
    then show ?thesis by simp
  next
    case False
    with p have "p = mem_get s ?a" "s1 = s" by (auto simp add: memRead_def)
    with assms False show ?thesis by auto
  qed
  obtain v s2 where "memRead p s1 = Inr (v, s2)"
    using memRead_returns [OF second] by auto
  with p show ?thesis by (simp add: loadIndirect_def Let_def)
qed

subsection \<open>Host output and the trap routines\<close>

lemma putBuf_frame [simp]:
  "registers (putBuf d s) = registers s" "memory (putBuf d s) = memory s"
  "memory_undefined (putBuf d s) = memory_undefined s" "running (putBuf d s) = running s"
  "keys (putBuf d s) = keys s"
  by (simp_all add: putBuf_def)

lemma console_log_frame [simp]:
  "registers (console_log m s) = registers s" "memory (console_log m s) = memory s"
  "memory_undefined (console_log m s) = memory_undefined s" "running (console_log m s) = running s"
  "keys (console_log m s) = keys s"
  by (simp_all add: console_log_def)

lemma getChar_keeps:
  assumes "getChar s = Inr (c, s1)"
  shows "registers s1 = registers s \<and> memory s1 = memory s \<and>
    memory_undefined s1 = memory_undefined s \<and> running s1 = running s \<and> stdout s1 = stdout s"
  using assms by (simp add: getChar_frame)

lemma mem_get_cell: "0 \<le> a \<Longrightarrow> a < MEMORY_SIZE \<Longrightarrow> mem_get s (Num a) = Num (uint (memory s a))"
  by (simp add: mem_get_def)

lemma puts_loop_scan:
  assumes "0 \<le> addr" "addr \<le> z" "z < MEMORY_SIZE" "memory s z = 0"
    and "\<forall>a. addr \<le> a \<and> a < z \<longrightarrow> memory s a \<noteq> 0"
  shows "puts_loop s addr buf = Some (buf @ map (\<lambda>a. Num (uint (memory s a))) [addr..z - 1])"
  using assms
proof (induction "nat (z - addr)" arbitrary: addr buf)
  case 0
  then have "addr = z" by simp
  then show ?case
    using 0 by (subst puts_loop.simps) (simp add: mem_get_cell)
next
  case (Suc n)
  then have lt: "addr < z" by linarith
  then have nz: "memory s addr \<noteq> 0" using Suc.prems by simp
  have cell: "mem_get s (Num addr) = Num (uint (memory s addr))"
    using Suc.prems lt by (simp add: mem_get_cell)
  have "puts_loop s (addr + 1) (buf @ [Num (uint (memory s addr))]) =
      Some ((buf @ [Num (uint (memory s addr))]) @ map (\<lambda>a. Num (uint (memory s a))) [addr + 1..z - 1])"
    using Suc.hyps(2) Suc.prems lt by (intro Suc.hyps(1)) auto
  moreover have "[addr..z - 1] = addr # [addr + 1..z - 1]"
    using lt by (simp add: upto_rec1)
  ultimately show ?case
    using nz by (subst puts_loop.simps) (simp add: cell uint_0_iff)
qed

lemma puts_loop_Some_zero:
  assumes "puts_loop s addr buf = Some y"
  shows "\<exists>z. addr \<le> z \<and> 0 \<le> z \<and> z < MEMORY_SIZE \<and> memory s z = 0"
proof (rule puts_loop.raw_induct
    [where P = "\<lambda>s addr buf y. \<exists>z. addr \<le> z \<and> 0 \<le> z \<and> z < MEMORY_SIZE \<and> memory s z = 0", OF _ assms])
  fix loop s addr buf y
  assume IH: "\<And>s addr buf y. loop s addr buf = Some y \<Longrightarrow>
      \<exists>z. addr \<le> z \<and> 0 \<le> z \<and> z < MEMORY_SIZE \<and> memory s z = 0"
    and body: "(if mem_get s (Num addr) \<noteq> Num 0
      then loop s (addr + 1) (buf @ [mem_get s (Num addr)]) else Some buf) = Some y"
  show "\<exists>z. addr \<le> z \<and> 0 \<le> z \<and> z < MEMORY_SIZE \<and> memory s z = 0"
  proof (cases "mem_get s (Num addr) \<noteq> Num 0")
    case True
    then have "loop s (addr + 1) (buf @ [mem_get s (Num addr)]) = Some y"
      using body by simp
    then obtain z where "addr + 1 \<le> z \<and> 0 \<le> z \<and> z < MEMORY_SIZE \<and> memory s z = 0"
      using IH by blast
    then show ?thesis by (intro exI [of _ z]) simp
  next
    case False
    then have "0 \<le> addr \<and> addr < MEMORY_SIZE \<and> memory s addr = 0"
      by (auto simp add: mem_get_def uint_0_iff split: if_splits)
    then show ?thesis by (intro exI [of _ addr]) simp
  qed
qed

lemma least_zero:
  fixes addr :: int
  assumes "addr \<le> a" "a < MEMORY_SIZE" "memory s a = 0"
  shows "\<exists>z. addr \<le> z \<and> z \<le> a \<and> memory s z = 0 \<and> (\<forall>b. addr \<le> b \<and> b < z \<longrightarrow> memory s b \<noteq> 0)"
  using assms
proof (induction "nat (a - addr)" arbitrary: a rule: less_induct)
  case less
  show ?case
  proof (cases "\<exists>b. addr \<le> b \<and> b < a \<and> memory s b = 0")
    case True
    then obtain b where b: "addr \<le> b" "b < a" "memory s b = 0" by blast
    then have "nat (b - addr) < nat (a - addr)" by simp
    then obtain z where "addr \<le> z \<and> z \<le> b \<and> memory s z = 0 \<and> (\<forall>c. addr \<le> c \<and> c < z \<longrightarrow> memory s c \<noteq> 0)"
      using less.hyps [of b] b less.prems by force
    then show ?thesis using b by (intro exI [of _ z]) auto
  next
    case False
    then show ?thesis using less.prems by (intro exI [of _ a]) auto
  qed
qed

lemma utf8_ascii:
  assumes "\<forall>b\<in>set bs. b < 0x80"
  shows "concat (map utf8_encode (utf8_decode utf8_initial bs)) = bs"
  using assms
proof (induction bs)
  case Nil
  show ?case by (simp add: utf8_initial_def)
next
  case (Cons b bs)
  then have b: "b < 0x80" by simp
  then have le: "b \<le> 0x7F" by (simp add: word_less_nat_alt word_le_nat_alt)
  have u: "unat b < 0x80" using b by (simp add: word_less_nat_alt)
  have "utf8_decode utf8_initial (b # bs) = unat b # utf8_decode utf8_initial bs"
    using le by (simp add: utf8_initial_def utf8_lead_def)
  moreover have "utf8_encode (unat b) = [b]"
    using u by (simp add: utf8_encode_def)
  ultimately show ?case using Cons by simp
qed

lemma ToUint8_cell: "ToUint8 (Num (uint (w :: 16 word))) = ucast w"
  by (simp add: ToUint8_def)

lemma trapHandler_PUTS:
  assumes "instr AND 0xFF = TRAP_PUTS"
  shows "trapHandler instr s =
    (case puts_loop s (reg_get s R_R0) [] of None \<Rightarrow> Inl Diverges | Some buf \<Rightarrow> Inr (putBuf buf s))"
  using assms by (simp add: trapHandler_def)

subsection \<open>The image loader\<close>

lemma be_value: "uint (ucast (drop_bit 8 w) :: 8 word) * 256 + uint (ucast w :: 8 word) = uint (w :: 16 word)"
proof -
  have lo: "uint (ucast w :: 8 word) = uint w mod 256"
    by (simp add: take_bit_eq_mod unsigned_ucast_eq)
  have "uint (drop_bit 8 w) = uint w div 256"
    by (simp add: drop_bit_eq_div uint_div_distrib)
  moreover have "uint w div 256 < 256"
    using uint_lt2p [of w] by simp
  ultimately have hi: "uint (ucast (drop_bit 8 w) :: 8 word) = uint w div 256"
    by (simp add: unsigned_ucast_eq take_bit_eq_mod pos_imp_zdiv_nonneg_iff)
  show ?thesis unfolding lo hi by simp
qed

lemma length_concat_be: "length (concat (map be_bytes ws)) = 2 * length ws"
  by (induction ws) (simp_all add: be_bytes_def)

lemma concat_be_nth:
  assumes "i < length ws"
  shows "concat (map be_bytes ws) ! (2 * i) = ucast (drop_bit 8 (ws ! i)) \<and>
    concat (map be_bytes ws) ! (2 * i + 1) = ucast (ws ! i)"
  using assms
proof (induction ws arbitrary: i)
  case Nil
  then show ?case by simp
next
  case (Cons w ws)
  show ?case
  proof (cases i)
    case 0
    then show ?thesis by (simp add: be_bytes_def)
  next
    case (Suc k)
    then have "k < length ws" using Cons.prems by simp
    from Cons.IH [OF this] show ?thesis
      using Suc by (simp add: be_bytes_def)
  qed
qed

lemma readUInt16BE_origin: "readUInt16BE (be_bytes origin @ bs) 0 = Inr (uint origin)"
  by (simp add: readUInt16BE_def be_bytes_def be_value)

lemma readUInt16BE_word:
  assumes "i < length ws"
  shows "readUInt16BE (be_bytes origin @ concat (map be_bytes ws)) ((i + 1) * 2) = Inr (uint (ws ! i))"
proof -
  have "(be_bytes origin @ concat (map be_bytes ws)) ! ((i + 1) * 2) = concat (map be_bytes ws) ! (2 * i)"
    by (simp add: nth_append be_bytes_def mult.commute)
  moreover have "(be_bytes origin @ concat (map be_bytes ws)) ! ((i + 1) * 2 + 1) = concat (map be_bytes ws) ! (2 * i + 1)"
    by (simp add: nth_append be_bytes_def mult.commute)
  moreover have "(i + 1) * 2 + 2 \<le> length (be_bytes origin @ concat (map be_bytes ws))"
    using assms by (simp add: length_concat_be be_bytes_def)
  ultimately show ?thesis
    using concat_be_nth [OF assms] by (simp add: readUInt16BE_def be_value)
qed

lemma ToUint16_uint: "ToUint16 (Num (uint (w :: 16 word))) = w"
  by (simp add: ToUint16_def)

lemma readImage_loop_words:
  assumes "pos \<le> length ws"
  shows "\<exists>s'. readImage_loop (be_bytes org @ concat (map be_bytes ws)) origin pos s = Inr s' \<and>
    memory s' = (\<lambda>j. if origin + int pos \<le> j \<and> j < origin + int (length ws) \<and> 0 \<le> j \<and> j < MEMORY_SIZE
                     then ws ! nat (j - origin) else memory s j)"
  using assms
proof (induction "length ws - pos" arbitrary: pos s)
  case 0
  then have "pos = length ws" by simp
  then show ?case
    by (subst readImage_loop.simps) (auto simp add: length_concat_be be_bytes_def fun_eq_iff)
next
  case (Suc n)
  then have lt: "pos < length ws" by simp
  let ?img = "be_bytes org @ concat (map be_bytes ws)"
  let ?s1 = "mem_set s (Num (origin + int pos)) (Num (uint (ws ! pos)))"
  have guard: "(pos + 1) * 2 < length ?img"
    using lt by (simp add: length_concat_be be_bytes_def)
  have unfold: "readImage_loop ?img origin pos s = readImage_loop ?img origin (pos + 1) ?s1"
    by (subst readImage_loop.simps) (simp only: guard readUInt16BE_word [OF lt] if_True sum.case)
  have n: "n = length ws - (pos + 1)" using Suc.hyps(2) by simp
  have le: "pos + 1 \<le> length ws" using lt by simp
  obtain s' where s': "readImage_loop ?img origin (pos + 1) ?s1 = Inr s'"
    "memory s' = (\<lambda>j. if origin + int (pos + 1) \<le> j \<and> j < origin + int (length ws) \<and> 0 \<le> j \<and> j < MEMORY_SIZE
                     then ws ! nat (j - origin) else memory ?s1 j)"
    using Suc.hyps(1) [OF n le, of ?s1] by blast
  have "memory s' = (\<lambda>j. if origin + int pos \<le> j \<and> j < origin + int (length ws) \<and> 0 \<le> j \<and> j < MEMORY_SIZE
                     then ws ! nat (j - origin) else memory s j)"
    unfolding s'(2) using lt
    by (auto simp add: fun_eq_iff mem_set_def ToUint16_uint)
  with s'(1) unfold show ?case by simp
qed

lemma readImage_loop_odd:
  assumes "odd (length img)" and "(pos + 1) * 2 < length img"
  shows "readImage_loop img origin pos s = Inl RangeError"
  using assms
proof (induction "length img - (pos + 1) * 2" arbitrary: pos s rule: less_induct)
  case less
  show ?case
  proof (cases "(pos + 1) * 2 + 2 \<le> length img")
    case False
    then show ?thesis
      using less.prems by (subst readImage_loop.simps) (simp add: readUInt16BE_def)
  next
    case True
    have "(pos + 1) * 2 + 2 \<noteq> length img"
      using less.prems(1) by presburger
    with True have next_guard: "(pos + 1 + 1) * 2 < length img" by simp
    then have "length img - (pos + 1 + 1) * 2 < length img - (pos + 1) * 2" by simp
    from less.hyps [OF this less.prems(1) next_guard]
    have "readImage_loop img origin (pos + 1) s' = Inl RangeError" for s' .
    then show ?thesis
      using less.prems(2) True
      by (subst readImage_loop.simps) (simp add: readUInt16BE_def)
  qed
qed

section \<open>Sign extension round trip\<close>

text \<open>
  Claim C4. For every \<open>N\<close> in \<open>{5, 6, 9, 11}\<close> and every 16-bit value \<open>v\<close> whose bits \<open>N..15\<close>
  all equal its bit \<open>N - 1\<close>, \<open>signExtend\<close> applied to the low \<open>N\<close> bits of \<open>v\<close> gives \<open>v\<close>
  back once the result is taken as a 16-bit word. Moreover, for any \<open>x\<close>, every bit of
  the result from position \<open>N\<close> upwards (in particular bits \<open>N..15\<close>) equals bit \<open>N - 1\<close>
  of \<open>x\<close>: all 1 when it is set, all 0 otherwise.
\<close>

theorem signExtend_roundtrip:
  fixes v :: "16 word"
  assumes "N \<in> {5, 6, 9, 11}"
    and "\<forall>i\<in>{N..<16}. bit v i = bit v (N - 1)"
  shows "ToUint16 (Num (signExtend (uint v AND (push_bit N 1 - 1)) N)) = v \<and>
    (\<forall>x i. N \<le> i \<longrightarrow> bit (signExtend x N) i = bit x (N - 1))"
proof -
  have N: "0 < N" "N \<le> 16" using assms(1) by auto
  have "word_of_int (signed_take_bit (N - 1) (uint v AND mask N)) = v"
  proof (rule bit_word_eqI)
    fix i assume i: "i < LENGTH(16)"
    show "bit (word_of_int (signed_take_bit (N - 1) (uint v AND mask N)) :: 16 word) i = bit v i"
    proof (cases "i < N")
      case True
      then have "N - 1 \<le> i \<Longrightarrow> N - 1 = i" by arith
      with True show ?thesis using i N
        by (auto simp add: bit_word_of_int_iff bit_signed_take_bit_iff bit_and_iff bit_mask_iff
            bit_uint_iff min_def)
    next
      case False
      then have "bit v i = bit v (N - 1)" using assms(2) i by simp
      then show ?thesis using i N False
        by (auto simp add: bit_word_of_int_iff bit_signed_take_bit_iff bit_and_iff bit_mask_iff
            bit_uint_iff min_def)
    qed
  qed
  moreover have "\<forall>x i. N \<le> i \<longrightarrow> bit (signExtend x N) i = bit x (N - 1)"
    using N by (auto simp add: signExtend_signed_take_bit bit_signed_take_bit_iff min_def)
  ultimately show ?thesis
    using N by (simp add: ToUint16_def signExtend_signed_take_bit mask_eq_exp_minus_1)
qed

theorem signExtend_roundtrip_witness:
  "ToUint16 (Num (signExtend (uint (0xFFF0 :: 16 word) AND (push_bit 5 1 - 1)) 5)) = 0xFFF0 \<and>
   bit (signExtend 0x10 5) 15 = bit (0x10::int) (5 - 1)"
proof -
  have a: "(5::nat) \<in> {5, 6, 9, 11}" by simp
  have b: "\<forall>i\<in>{5..<16}. bit (0xFFF0 :: 16 word) i = bit (0xFFF0 :: 16 word) (5 - 1)"
    by code_simp
  show ?thesis
    using a b signExtend_roundtrip [OF a b] by simp
qed

section \<open>Condition flags after a flag-setting instruction\<close>

text \<open>
  Claim C5. For every machine state and every instruction word with opcode ADD, AND, NOT,
  LD, LDI, LDR or LEA: whenever its handler returns, \<open>COND\<close> is exactly one of 1, 2 and 4;
  it is 1 (POS) exactly when the value now in the destination register is strictly positive
  as a signed 16-bit number, 2 (ZRO) exactly when it is zero, and 4 (NEG) exactly when its
  bit 15 is set. The handler does return: always for ADD, AND, NOT and LEA; for LD, LDI and
  LDR whenever no read of the instruction touches KBSR; and for all seven whenever the host
  has a key pending that is not the confirmed quit.
\<close>

theorem cond_after_flag_setting:
  assumes "drop_bit 12 instr \<in> {OP_ADD, OP_AND, OP_NOT, OP_LD, OP_LDI, OP_LDR, OP_LEA}"
  shows "(dispatch instr s = Inr s' \<longrightarrow>
      reg_get s' R_COND \<in> {FL_POS, FL_ZRO, FL_NEG} \<and>
      (reg_get s' R_COND = FL_POS \<longleftrightarrow> 0 < sint (registers s' (drop_bit 9 instr AND 0x7))) \<and>
      (reg_get s' R_COND = FL_ZRO \<longleftrightarrow> registers s' (drop_bit 9 instr AND 0x7) = 0) \<and>
      (reg_get s' R_COND = FL_NEG \<longleftrightarrow> bit (registers s' (drop_bit 9 instr AND 0x7)) 15)) \<and>
    (drop_bit 12 instr \<in> {OP_ADD, OP_AND, OP_NOT, OP_LEA} \<longrightarrow> (\<exists>t. dispatch instr s = Inr t)) \<and>
    (drop_bit 12 instr = OP_LD \<and>
      reg_get s R_PC + signExtend (instr AND 0x1ff) 9 \<noteq> MR_KBSR \<longrightarrow>
        (\<exists>t. dispatch instr s = Inr t)) \<and>
    (drop_bit 12 instr = OP_LDR \<and>
      reg_get s (drop_bit 6 instr AND 0x7) + signExtend (instr AND 0x3F) 6 \<noteq> MR_KBSR \<longrightarrow>
        (\<exists>t. dispatch instr s = Inr t)) \<and>
    (drop_bit 12 instr = OP_LDI \<and>
      reg_get s R_PC + signExtend (instr AND 0x1ff) 9 \<noteq> MR_KBSR \<and>
      mem_get s (Num (reg_get s R_PC + signExtend (instr AND 0x1ff) 9)) \<noteq> Num MR_KBSR \<longrightarrow>
        (\<exists>t. dispatch instr s = Inr t)) \<and>
    ((\<exists>k ks. keys s = k # ks \<and> k \<noteq> Quit) \<longrightarrow> (\<exists>t. dispatch instr s = Inr t))"
proof -
  have flags: "reg_get s' R_COND \<in> {FL_POS, FL_ZRO, FL_NEG} \<and>
      (reg_get s' R_COND = FL_POS \<longleftrightarrow> 0 < sint (registers s' (drop_bit 9 instr AND 0x7))) \<and>
      (reg_get s' R_COND = FL_ZRO \<longleftrightarrow> registers s' (drop_bit 9 instr AND 0x7) = 0) \<and>
      (reg_get s' R_COND = FL_NEG \<longleftrightarrow> bit (registers s' (drop_bit 9 instr AND 0x7)) 15)"
    if ret: "dispatch instr s = Inr s'"
  proof -
    have "\<exists>s1. s' = updateFlags (drop_bit 9 instr AND 0x7) s1"
      using assms ret
      by (auto simp add: dispatch_def Let_def add_ends bitwiseAnd_ends bitwiseNot_ends
          loadEffectiveAddress_ends load_ends loadRegister_ends loadIndirect_ends split: if_splits)
    then obtain s1 where "s' = updateFlags (drop_bit 9 instr AND 0x7) s1" ..
    then show ?thesis
      by (rule updateFlags_agree [OF field3(4)])
  qed
  have pure: "\<exists>t. dispatch instr s = Inr t"
    if "drop_bit 12 instr \<in> {OP_ADD, OP_AND, OP_NOT, OP_LEA}"
    using that by (auto simp add: dispatch_def Let_def)
  have ld: "\<exists>t. dispatch instr s = Inr t"
    if "drop_bit 12 instr = OP_LD" "reg_get s R_PC + signExtend (instr AND 0x1ff) 9 \<noteq> MR_KBSR"
    using that load_returns [of s instr] by (simp add: dispatch_def Let_def)
  have ldr: "\<exists>t. dispatch instr s = Inr t"
    if "drop_bit 12 instr = OP_LDR"
      "reg_get s (drop_bit 6 instr AND 0x7) + signExtend (instr AND 0x3F) 6 \<noteq> MR_KBSR"
    using that loadRegister_returns [of s instr] by (simp add: dispatch_def Let_def)
  have ldi: "\<exists>t. dispatch instr s = Inr t"
    if "drop_bit 12 instr = OP_LDI" "reg_get s R_PC + signExtend (instr AND 0x1ff) 9 \<noteq> MR_KBSR"
      "mem_get s (Num (reg_get s R_PC + signExtend (instr AND 0x1ff) 9)) \<noteq> Num MR_KBSR"
    using that loadIndirect_returns [of s instr] by (simp add: dispatch_def Let_def)
  have key: "\<exists>t. dispatch instr s = Inr t" if k: "\<exists>k ks. keys s = k # ks \<and> k \<noteq> Quit"
  proof -
    from assms consider "drop_bit 12 instr \<in> {OP_ADD, OP_AND, OP_NOT, OP_LEA}"
      | "drop_bit 12 instr = OP_LD" | "drop_bit 12 instr = OP_LDR" | "drop_bit 12 instr = OP_LDI"
      by auto
    then show ?thesis
    proof cases
      case 1 then show ?thesis by (rule pure)
    next
      case 2 then show ?thesis using load_returns [of s instr] k by (simp add: dispatch_def Let_def)
    next
      case 3 then show ?thesis using loadRegister_returns [of s instr] k by (simp add: dispatch_def Let_def)
    next
      case 4 then show ?thesis using loadIndirect_returns [of s instr] k by (simp add: dispatch_def Let_def)
    qed
  qed
  show ?thesis using flags pure ld ldr ldi key by blast
qed

theorem cond_after_flag_setting_witness:
  "dispatch 0xA001
      ((boot [])\<lparr>memory := (\<lambda>_. 0)(0x3002 := 0x4000, 0x4000 := 0x1234),
                  registers := (\<lambda>_. 0)(R_PC := 0x3001)\<rparr>) =
     Inr ((boot [])\<lparr>memory := (\<lambda>_. 0)(0x3002 := 0x4000, 0x4000 := 0x1234),
                    registers := (\<lambda>_. 0)(R_PC := 0x3001, R_R0 := 0x1234, R_COND := 1)\<rparr>) \<and>
   0 < sint (0x1234 :: 16 word) \<and>
   (\<exists>t. dispatch 0x127F (boot []) = Inr t) \<and>
   (\<exists>t. dispatch 0x6040 (boot [CodeUnit 0x61]) = Inr t)"
proof -
  let ?s = "(boot [])\<lparr>memory := (\<lambda>_. 0)(0x3002 := 0x4000, 0x4000 := 0x1234),
                  registers := (\<lambda>_. 0)(R_PC := 0x3001)\<rparr>"
  let ?s' = "(boot [])\<lparr>memory := (\<lambda>_. 0)(0x3002 := 0x4000, 0x4000 := 0x1234),
                    registers := (\<lambda>_. 0)(R_PC := 0x3001, R_R0 := 0x1234, R_COND := 1)\<rparr>"
  have ldi: "drop_bit 12 (0xA001::int) \<in> {OP_ADD, OP_AND, OP_NOT, OP_LD, OP_LDI, OP_LDR, OP_LEA}"
    by simp
  have add: "drop_bit 12 (0x127F::int) \<in> {OP_ADD, OP_AND, OP_NOT, OP_LD, OP_LDI, OP_LDR, OP_LEA}"
    by simp
  have ldr: "drop_bit 12 (0x6040::int) \<in> {OP_ADD, OP_AND, OP_NOT, OP_LD, OP_LDI, OP_LDR, OP_LEA}"
    by simp
  have a: "reg_get ?s R_PC + signExtend (0xA001 AND 0x1ff) 9 = 0x3002"
    by (simp add: reg_get_def signExtend_def)
  have b: "mem_get ?s (Num 0x3002) = Num 0x4000"
    by (simp add: mem_get_def)
  have "\<exists>t. dispatch 0xA001 ?s = Inr t"
    using cond_after_flag_setting [OF ldi, of ?s] a b by simp
  then obtain t where t: "dispatch 0xA001 ?s = Inr t" ..
  have run: "dispatch 0xA001 ?s = Inr ?s'"
    by (simp add: dispatch_def loadIndirect_def signExtend_def memRead_def mem_get_def reg_get_def
        reg_set_def updateFlags_def ToUint16_def boot_def fun_upd_twist)
  have pos: "0 < sint (0x1234 :: 16 word)"
    using cond_after_flag_setting [OF ldi, of ?s ?s'] run by (simp add: reg_get_def)
  have 1: "\<exists>t. dispatch 0x127F (boot []) = Inr t"
    using cond_after_flag_setting [OF add, of "boot []"] by simp
  have "\<exists>k ks. keys (boot [CodeUnit 0x61]) = k # ks \<and> k \<noteq> Quit"
    by (simp add: boot_def)
  then have 2: "\<exists>t. dispatch 0x6040 (boot [CodeUnit 0x61]) = Inr t"
    using cond_after_flag_setting [OF ldr, of "boot [CodeUnit 0x61]"] by blast
  from run pos 1 2 show ?thesis by blast
qed

section \<open>Reads through the memory interface\<close>

text \<open>
  Claim C6, as stated: a read of KBSR leaves either KBSR = \<open>0x8000\<close> and the byte value of
  the polled character in KBDR (a character was available) or KBSR = 0 (none was). The
  poll is the blocking \<open>getChar\<close>. With no key pending the read does not return at all. A
  key that was available but whose trimmed text is empty (the space bar), or whose code is
  0, gives KBSR = 0 and leaves KBDR as it was (\<open>0x41\<close> below). And KBDR receives the
  16-bit code unit of the character, which is no byte for the euro sign \<open>0x20AC\<close>.
\<close>

theorem memRead_contract_counterexample:
  "memRead (Num MR_KBSR) (boot []) = Inl Blocked \<and>
   memRead (Num MR_KBSR) ((boot [Empty])\<lparr>memory := (\<lambda>_. 0)(MR_KBDR := 0x41)\<rparr>) =
     Inr (Num 0, (boot [])\<lparr>memory := (\<lambda>_. 0)(MR_KBDR := 0x41, MR_KBSR := 0)\<rparr>) \<and>
   memRead (Num MR_KBSR) (boot [CodeUnit 0x20AC]) =
     Inr (Num 0x8000, (boot [])\<lparr>memory := (\<lambda>_. 0)(MR_KBSR := 0x8000, MR_KBDR := 0x20AC)\<rparr>)"
  by (simp add: memRead_def getChar_def boot_def truthy_def mem_set_def mem_get_def ToUint16_def)

text \<open>
  Claim C6, amended. For every address other than KBSR (\<open>0xFE00\<close>), \<open>memRead\<close> returns
  \<^verbatim>\<open>memory[address]\<close> and leaves the whole state as it was: registers, memory and the
  pending host input (so a read of KBDR consumes no input). A read of KBSR takes the next
  key from the host and changes nothing but KBSR, KBDR and the pending input. If the key
  has a nonzero code \<open>c\<close>, KBSR becomes \<open>0x8000\<close>, KBDR becomes the 16-bit code unit \<open>c\<close>
  (the byte value for \<open>c \<le> 0xFF\<close>) and \<open>0x8000\<close> is returned. If the trimmed text of the key
  is empty or its code is 0, KBSR becomes 0, KBDR is unchanged and 0 is returned. If the
  user confirms a quit the process exits with code 0, and while no key is pending the read
  blocks; it never reports that no character is available.
\<close>

theorem memRead_contract:
  "(address \<noteq> Num MR_KBSR \<longrightarrow> memRead address s = Inr (mem_get s address, s)) \<and>
   (keys s = CodeUnit c # ks \<and> c \<noteq> 0 \<longrightarrow>
      memRead (Num MR_KBSR) s =
        Inr (Num 0x8000, s\<lparr>memory := (memory s)(MR_KBSR := 0x8000, MR_KBDR := c), keys := ks\<rparr>)) \<and>
   (keys s = Empty # ks \<or> keys s = CodeUnit 0 # ks \<longrightarrow>
      memRead (Num MR_KBSR) s =
        Inr (Num 0, s\<lparr>memory := (memory s)(MR_KBSR := 0), keys := ks\<rparr>)) \<and>
   (keys s = Quit # ks \<longrightarrow> memRead (Num MR_KBSR) s = Inl (Exit 0)) \<and>
   (keys s = [] \<longrightarrow> memRead (Num MR_KBSR) s = Inl Blocked)"
proof -
  have pure: "memRead address s = Inr (mem_get s address, s)" if "address \<noteq> Num MR_KBSR"
    using that by (rule memRead_pure)
  have ready: "memRead (Num MR_KBSR) s =
      Inr (Num 0x8000, s\<lparr>memory := (memory s)(MR_KBSR := 0x8000, MR_KBDR := c), keys := ks\<rparr>)"
    if "keys s = CodeUnit c # ks" "c \<noteq> 0"
    using that
    by (simp add: memRead_def getChar_def truthy_def mem_set_def mem_get_def ToUint16_def uint_0_iff)
  have none: "memRead (Num MR_KBSR) s = Inr (Num 0, s\<lparr>memory := (memory s)(MR_KBSR := 0), keys := ks\<rparr>)"
    if "keys s = Empty # ks \<or> keys s = CodeUnit 0 # ks"
    using that
    by (auto simp add: memRead_def getChar_def truthy_def mem_set_def mem_get_def ToUint16_def)
  have quit: "memRead (Num MR_KBSR) s = Inl (Exit 0)" if "keys s = Quit # ks"
    using that by (simp add: memRead_def getChar_def)
  have blocked: "memRead (Num MR_KBSR) s = Inl Blocked" if "keys s = []"
    using that by (simp add: memRead_def getChar_def)
  show ?thesis using pure ready none quit blocked by blast
qed

theorem memRead_contract_witness:
  "memRead (Num MR_KBDR) (boot [CodeUnit 0x61]) = Inr (Num 0, boot [CodeUnit 0x61]) \<and>
   memRead (Num MR_KBSR) (boot [CodeUnit 0x61]) =
     Inr (Num 0x8000, (boot [])\<lparr>memory := (\<lambda>_. 0)(MR_KBSR := 0x8000, MR_KBDR := 0x61)\<rparr>) \<and>
   memRead (Num MR_KBSR) (boot [CodeUnit 0]) =
     Inr (Num 0, (boot [])\<lparr>memory := (\<lambda>_. 0)(MR_KBSR := 0)\<rparr>) \<and>
   memRead (Num MR_KBSR) (boot [Quit]) = Inl (Exit 0) \<and>
   memRead (Num MR_KBSR) (boot []) = Inl Blocked"
proof -
  have a: "Num MR_KBDR \<noteq> Num MR_KBSR" by simp
  have c: "mem_get (boot [CodeUnit 0x61]) (Num MR_KBDR) = Num 0"
    by (simp add: mem_get_def boot_def)
  have k1: "keys (boot [CodeUnit 0x61]) = CodeUnit 0x61 # [] \<and> (0x61 :: 16 word) \<noteq> 0"
    by (simp add: boot_def)
  have k2: "keys (boot [CodeUnit 0]) = Empty # [] \<or> keys (boot [CodeUnit 0]) = CodeUnit 0 # []"
    by (simp add: boot_def)
  have k3: "keys (boot [Quit]) = Quit # []" by (simp add: boot_def)
  have k4: "keys (boot []) = []" by (simp add: boot_def)
  have 1: "memRead (Num MR_KBDR) (boot [CodeUnit 0x61]) = Inr (Num 0, boot [CodeUnit 0x61])"
    using memRead_contract [of "Num MR_KBDR" "boot [CodeUnit 0x61]"] a c by simp
  have 2: "memRead (Num MR_KBSR) (boot [CodeUnit 0x61]) =
     Inr (Num 0x8000, (boot [])\<lparr>memory := (\<lambda>_. 0)(MR_KBSR := 0x8000, MR_KBDR := 0x61)\<rparr>)"
    using memRead_contract [of "Num 0" "boot [CodeUnit 0x61]" "0x61" "[]"] k1 by (simp add: boot_def)
  have 3: "memRead (Num MR_KBSR) (boot [CodeUnit 0]) =
     Inr (Num 0, (boot [])\<lparr>memory := (\<lambda>_. 0)(MR_KBSR := 0)\<rparr>)"
    using memRead_contract [of "Num 0" "boot [CodeUnit 0]" 0 "[]"] k2 by (simp add: boot_def)
  have 4: "memRead (Num MR_KBSR) (boot [Quit]) = Inl (Exit 0)"
    using memRead_contract [of "Num 0" "boot [Quit]" 0 "[]"] k3 by simp
  have 5: "memRead (Num MR_KBSR) (boot []) = Inl Blocked"
    using memRead_contract [of "Num 0" "boot []" 0 "[]"] k4 by simp
  from 1 2 3 4 5 show ?thesis by blast
qed

section \<open>LEA and the incremented program counter\<close>

text \<open>
  Claim C7. In every machine state whose fetch at address \<open>A = PC\<close> returns a word
  \<open>instr\<close> with opcode LEA, one turn of the loop returns, and afterwards the destination
  register holds \<open>(A + 1 + sext(instr & 0x1ff, 9)) mod 2 ^ 16\<close>: the program counter that
  LEA reads is the address of the next instruction, because \<open>PC\<close> is incremented after
  the fetch and before the dispatch. \<open>COND\<close> is then set from the destination register,
  and \<open>PC\<close> is \<open>(A + 1) mod 2 ^ 16\<close>.
\<close>

theorem lea_after_fetch:
  assumes "memRead (Num (reg_get s R_PC)) s = Inr (Num instr, s1)"
    and "drop_bit 12 instr = OP_LEA"
  shows "\<exists>s'. step s = Inr s' \<and>
    reg_get s' (drop_bit 9 instr AND 0x7) =
      (reg_get s R_PC + 1 + signExtend (instr AND 0x1ff) 9) mod 65536 \<and>
    reg_get s' R_COND =
      (if registers s' (drop_bit 9 instr AND 0x7) = 0 then FL_ZRO
       else if bit (registers s' (drop_bit 9 instr AND 0x7)) 15 then FL_NEG else FL_POS) \<and>
    reg_get s' R_PC = (reg_get s R_PC + 1) mod 65536"
proof -
  let ?r0 = "drop_bit 9 instr AND 0x7"
  obtain w :: "16 word" where w: "instr = uint w"
    using memRead_word [OF assms(1) reg_get_range] by auto
  have i: "ToInt32 (Num instr) = instr" by (simp add: w ToInt32_uint)
  have r: "registers s1 = registers s" using assms(1) by (rule memRead_registers)
  let ?s2 = "reg_set s1 R_PC (Num (reg_get s1 R_PC + 1))"
  have st: "step s = Inr (loadEffectiveAddress instr ?s2)"
    using assms by (simp add: step_def i dispatch_def Let_def)
  have r': "reg_get s1 R_PC = reg_get s R_PC" by (simp add: reg_get_def r)
  have pc2: "reg_get ?s2 R_PC = (reg_get s R_PC + 1) mod 65536"
    by (simp add: reg_get_reg_set uint_ToUint16) (simp add: reg_get_def r)
  have dr: "reg_get (loadEffectiveAddress instr ?s2) ?r0 =
      (reg_get s R_PC + 1 + signExtend (instr AND 0x1ff) 9) mod 65536"
    using field3 [of "drop_bit 9 instr"]
    by (simp add: loadEffectiveAddress_def Let_def reg_get_updateFlags reg_get_reg_set
        uint_ToUint16 r' mod_add_left_eq)
  have cond: "reg_get (loadEffectiveAddress instr ?s2) R_COND =
      (if registers (loadEffectiveAddress instr ?s2) ?r0 = 0 then FL_ZRO
       else if bit (registers (loadEffectiveAddress instr ?s2) ?r0) 15 then FL_NEG else FL_POS)"
    using field3 [of "drop_bit 9 instr"]
    by (simp add: loadEffectiveAddress_def Let_def reg_get_def registers_updateFlags)
  have pc: "reg_get (loadEffectiveAddress instr ?s2) R_PC = (reg_get s R_PC + 1) mod 65536"
    using field3 [of "drop_bit 9 instr"] pc2
    by (simp add: loadEffectiveAddress_def Let_def reg_get_updateFlags reg_get_reg_set)
  show ?thesis using st dr cond pc by simp
qed

theorem lea_after_fetch_witness:
  "\<exists>s'. step ((boot [])\<lparr>memory := (\<lambda>_. 0)(PC_START := 0xE1FF)\<rparr>) = Inr s' \<and>
     reg_get s' R_R0 = 0x3000 \<and> reg_get s' R_COND = FL_POS \<and> reg_get s' R_PC = 0x3001"
proof -
  let ?s = "(boot [])\<lparr>memory := (\<lambda>_. 0)(PC_START := 0xE1FF)\<rparr>"
  have pc: "reg_get ?s R_PC = 0x3000" by (simp add: reg_get_def boot_def)
  have a: "memRead (Num (reg_get ?s R_PC)) ?s = Inr (Num 0xE1FF, ?s)"
    unfolding pc by (simp add: memRead_def mem_get_def)
  have b: "drop_bit 12 (0xE1FF :: int) = OP_LEA" by simp
  have c: "signExtend 511 9 = - 1" by (simp add: signExtend_def)
  obtain s' where s': "step ?s = Inr s'" "reg_get s' R_R0 = 0x3000" "reg_get s' R_PC = 0x3001"
    and cond: "reg_get s' R_COND =
      (if registers s' R_R0 = 0 then FL_ZRO else if bit (registers s' R_R0) 15 then FL_NEG else FL_POS)"
    using lea_after_fetch [OF a b] by (auto simp add: pc c cong: if_cong)
  from s'(2) have "registers s' R_R0 = 0x3000"
    by (simp add: reg_get_def word_uint_eq_iff)
  with cond have "reg_get s' R_COND = FL_POS" by simp
  with s' show ?thesis by blast
qed

section \<open>What a trap leaves unchanged\<close>

text \<open>
  Claim C8. For every machine state and every TRAP instruction whose vector is one of
  \<open>0x20\<close> to \<open>0x25\<close>, whenever the handler returns, every register other than \<open>R0\<close> is
  unchanged: \<open>R7\<close> and \<open>PC\<close> (no return address is saved and \<open>PC\<close> stays at the
  instruction after the TRAP), \<open>R1\<close> to \<open>R6\<close> and \<open>COND\<close>. Memory is unchanged as well.
  \<open>R0\<close> and the pending host input change only under GETC and IN, and the running flag
  only under HALT.
\<close>

theorem trap_frame:
  assumes "instr AND 0xFF \<in> {TRAP_GETC, TRAP_OUT, TRAP_PUTS, TRAP_IN, TRAP_PUTSP, TRAP_HALT}"
    and "trapHandler instr s = Inr s'"
  shows "(\<forall>r. r \<noteq> R_R0 \<longrightarrow> registers s' r = registers s r) \<and>
    memory s' = memory s \<and> memory_undefined s' = memory_undefined s \<and>
    (registers s' R_R0 \<noteq> registers s R_R0 \<longrightarrow> instr AND 0xFF \<in> {TRAP_GETC, TRAP_IN}) \<and>
    (keys s' \<noteq> keys s \<longrightarrow> instr AND 0xFF \<in> {TRAP_GETC, TRAP_IN}) \<and>
    (running s' \<noteq> running s \<longrightarrow> instr AND 0xFF = TRAP_HALT)"
  using assms
  by (auto simp add: trapHandler_def Let_def registers_reg_set
      split: if_splits sum.splits option.splits dest!: getChar_keeps)

theorem trap_frame_witness:
  "trapHandler 0xF020 (boot [CodeUnit 0x61]) = Inr (reg_set (boot []) R_R0 (Num 0x61)) \<and>
   registers (reg_set (boot []) R_R0 (Num 0x61)) R_R7 = registers (boot [CodeUnit 0x61]) R_R7 \<and>
   registers (reg_set (boot []) R_R0 (Num 0x61)) R_PC = registers (boot [CodeUnit 0x61]) R_PC \<and>
   memory (reg_set (boot []) R_R0 (Num 0x61)) = memory (boot [CodeUnit 0x61])"
proof -
  have a: "(0xF020 :: int) AND 0xFF \<in> {TRAP_GETC, TRAP_OUT, TRAP_PUTS, TRAP_IN, TRAP_PUTSP, TRAP_HALT}"
    by simp
  have b: "trapHandler 0xF020 (boot [CodeUnit 0x61]) = Inr (reg_set (boot []) R_R0 (Num 0x61))"
    by (simp add: trapHandler_def getChar_def boot_def)
  show ?thesis
    using b trap_frame [OF a b] by simp
qed

section \<open>The output of PUTS\<close>

text \<open>
  Claim C9, as stated: PUTS emits exactly the low 8 bits of each word \<open>M[R0], M[R0 + 1], \<dots>\<close>
  up to the first zero word. The code passes these bytes through a UTF-8 decoding and
  encoding, so this fails where they are not well-formed UTF-8: the single word \<open>0x0080\<close>
  is emitted as the three bytes \<open>EF BF BD\<close> of U+FFFD, not as the byte \<open>80\<close>.
\<close>

theorem puts_output_counterexample:
  "trapHandler 0xF022
      ((boot [])\<lparr>memory := (\<lambda>_. 0)(0x4000 := 0x80), registers := (\<lambda>_. 0)(R_R0 := 0x4000)\<rparr>) =
    Inr ((boot [])\<lparr>memory := (\<lambda>_. 0)(0x4000 := 0x80), registers := (\<lambda>_. 0)(R_R0 := 0x4000),
                    stdout := [0xEF, 0xBF, 0xBD]\<rparr>) \<and>
   [0xEF, 0xBF, 0xBD] \<noteq> [ucast (0x80 :: 16 word) :: 8 word]"
proof -
  let ?s = "(boot [])\<lparr>memory := (\<lambda>_. 0)(0x4000 := 0x80), registers := (\<lambda>_. 0)(R_R0 := 0x4000)\<rparr>"
  have r: "reg_get ?s R_R0 = 0x4000" by (simp add: reg_get_def)
  have "puts_loop ?s 0x4000 [] = Some [Num 0x80]"
    by (subst puts_loop.simps, simp add: mem_get_def, subst puts_loop.simps, simp add: mem_get_def)
  then have "trapHandler 0xF022 ?s = Inr (putBuf [Num 0x80] ?s)"
    by (simp add: trapHandler_def r)
  moreover have "putBuf [Num 0x80] ?s = ?s\<lparr>stdout := [0xEF, 0xBF, 0xBD]\<rparr>"
    by (simp add: putBuf_def ToUint8_def utf8_initial_def utf8_lead_def utf8_encode_def boot_def)
  ultimately show ?thesis by simp
qed

text \<open>
  Claim C9, amended. Let \<open>z\<close> be the first address with \<open>R0 \<le> z \<le> 0xFFFF\<close> that holds a
  zero word. Then PUTS returns, and it appends to the host output the UTF-8 encoding of
  the UTF-8 decoding of the low bytes of \<open>M[R0], \<dots>, M[z - 1]\<close>, in order; the high byte of
  a word is never emitted, and the zero word is not emitted. Whenever all these low bytes
  are below \<open>0x80\<close>, the output is exactly these bytes in order. In particular with
  \<open>R0 = 0x4000\<close> and \<open>M[0x4000..] = 'H', 'i', '!', 0\<close> it emits the bytes of \<open>Hi!\<close>.
\<close>

theorem puts_output:
  assumes "instr AND 0xFF = TRAP_PUTS"
    and "reg_get s R_R0 \<le> z" and "z \<le> 0xFFFF" and "memory s z = 0"
    and "\<forall>a. reg_get s R_R0 \<le> a \<and> a < z \<longrightarrow> memory s a \<noteq> 0"
  shows "\<exists>s'. trapHandler instr s = Inr s' \<and>
    stdout s' = stdout s @ concat (map utf8_encode (utf8_decode utf8_initial
        (map (\<lambda>a. ucast (memory s a)) [reg_get s R_R0..z - 1]))) \<and>
    ((\<forall>a. reg_get s R_R0 \<le> a \<and> a < z \<longrightarrow> (ucast (memory s a) :: 8 word) < 0x80) \<longrightarrow>
       stdout s' = stdout s @ map (\<lambda>a. ucast (memory s a)) [reg_get s R_R0..z - 1])"
proof -
  let ?r = "reg_get s R_R0"
  let ?bytes = "map (\<lambda>a. ucast (memory s a) :: 8 word) [?r..z - 1]"
  have r0: "0 \<le> ?r" by (rule reg_get_range)
  have scan: "puts_loop s ?r [] = Some (map (\<lambda>a. Num (uint (memory s a))) [?r..z - 1])"
    using puts_loop_scan [of ?r z s "[]"] r0 assms by simp
  have bytes: "map ToUint8 (map (\<lambda>a. Num (uint (memory s a))) [?r..z - 1]) = ?bytes"
    by (simp add: ToUint8_cell comp_def)
  let ?s' = "putBuf (map (\<lambda>a. Num (uint (memory s a))) [?r..z - 1]) s"
  have t: "trapHandler instr s = Inr ?s'"
    by (simp add: trapHandler_PUTS [OF assms(1)] scan)
  have out: "stdout ?s' = stdout s @ concat (map utf8_encode (utf8_decode utf8_initial ?bytes))"
    unfolding putBuf_def bytes by simp
  have "concat (map utf8_encode (utf8_decode utf8_initial ?bytes)) = ?bytes"
    if "\<forall>a. ?r \<le> a \<and> a < z \<longrightarrow> (ucast (memory s a) :: 8 word) < 0x80"
    using that by (intro utf8_ascii) auto
  with t out show ?thesis by auto
qed

theorem puts_output_witness:
  "\<exists>s'. trapHandler 0xF022
      ((boot [])\<lparr>memory := (\<lambda>_. 0)(0x4000 := 0x48, 0x4001 := 0x69, 0x4002 := 0x21),
                  registers := (\<lambda>_. 0)(R_R0 := 0x4000)\<rparr>) = Inr s' \<and>
    stdout s' = [0x48, 0x69, 0x21]"
proof -
  let ?s = "(boot [])\<lparr>memory := (\<lambda>_. 0)(0x4000 := 0x48, 0x4001 := 0x69, 0x4002 := 0x21),
                  registers := (\<lambda>_. 0)(R_R0 := 0x4000)\<rparr>"
  have r: "reg_get ?s R_R0 = 0x4000" by (simp add: reg_get_def)
  have a: "(0xF022 :: int) AND 0xFF = TRAP_PUTS" by simp
  have b: "reg_get ?s R_R0 \<le> 0x4003" "(0x4003 :: int) \<le> 0xFFFF" "memory ?s 0x4003 = 0"
    by (simp_all add: r)
  have c: "\<forall>a. reg_get ?s R_R0 \<le> a \<and> a < 0x4003 \<longrightarrow> memory ?s a \<noteq> 0"
    unfolding r by auto
  have u: "[0x4000..0x4002] = [0x4000, 0x4001, 0x4002 :: int]"
    by (simp add: upto_rec1)
  have d: "\<forall>a. reg_get ?s R_R0 \<le> a \<and> a < 0x4003 \<longrightarrow> (ucast (memory ?s a) :: 8 word) < 0x80"
    unfolding r by auto
  obtain s' where s': "trapHandler 0xF022 ?s = Inr s'"
    "stdout s' = stdout ?s @ map (\<lambda>a. ucast (memory ?s a)) [reg_get ?s R_R0..0x4003 - 1]"
    using puts_output [OF a b c] d by blast
  from s'(2) have "stdout s' = [0x48, 0x69, 0x21]"
    unfolding r by (simp add: u boot_def)
  with s'(1) show ?thesis by blast
qed

section \<open>Termination of PUTS\<close>

text \<open>
  Claim C10. The PUTS trap returns exactly when memory holds a zero word at some address
  \<open>a\<close> with \<open>R0 \<le> a \<le> 0xFFFF\<close>. When no such address exists, the scan never leaves
  its loop: the end of the 65536-word address space does not stop it and it does not
  wrap around to address 0. When \<open>z\<close> is the least such address, the loop ends having
  scanned exactly the words \<open>M[R0], \<dots>, M[z - 1]\<close>.
\<close>

theorem puts_terminates_iff:
  assumes "instr AND 0xFF = TRAP_PUTS"
  shows "((\<exists>s'. trapHandler instr s = Inr s') \<longleftrightarrow>
      (\<exists>a. reg_get s R_R0 \<le> a \<and> a \<le> 0xFFFF \<and> memory s a = 0)) \<and>
    (\<not> (\<exists>a. reg_get s R_R0 \<le> a \<and> a \<le> 0xFFFF \<and> memory s a = 0) \<longrightarrow>
      trapHandler instr s = Inl Diverges) \<and>
    (\<forall>z. reg_get s R_R0 \<le> z \<and> z \<le> 0xFFFF \<and> memory s z = 0 \<and>
        (\<forall>a. reg_get s R_R0 \<le> a \<and> a < z \<longrightarrow> memory s a \<noteq> 0) \<longrightarrow>
      puts_loop s (reg_get s R_R0) [] =
        Some (map (\<lambda>a. Num (uint (memory s a))) [reg_get s R_R0..z - 1]))"
proof -
  let ?r = "reg_get s R_R0"
  let ?Z = "\<exists>a. ?r \<le> a \<and> a \<le> 0xFFFF \<and> memory s a = 0"
  have r0: "0 \<le> ?r" by (rule reg_get_range)
  have scan: "puts_loop s ?r [] = Some (map (\<lambda>a. Num (uint (memory s a))) [?r..z - 1])"
    if "?r \<le> z \<and> z \<le> 0xFFFF \<and> memory s z = 0 \<and> (\<forall>a. ?r \<le> a \<and> a < z \<longrightarrow> memory s a \<noteq> 0)" for z
    using puts_loop_scan [of ?r z s "[]"] r0 that by simp
  have ret: "\<exists>s'. trapHandler instr s = Inr s'" if ?Z
  proof -
    from that obtain a where "?r \<le> a" "a < MEMORY_SIZE" "memory s a = 0" by auto
    from least_zero [OF this] obtain z where
      "?r \<le> z \<and> z \<le> 0xFFFF \<and> memory s z = 0 \<and> (\<forall>a. ?r \<le> a \<and> a < z \<longrightarrow> memory s a \<noteq> 0)"
      using \<open>a < MEMORY_SIZE\<close> by fastforce
    from scan [OF this] show ?thesis
      by (simp add: trapHandler_PUTS [OF assms])
  qed
  have div: "trapHandler instr s = Inl Diverges" if "\<not> ?Z"
  proof (cases "puts_loop s ?r []")
    case None
    then show ?thesis by (simp add: trapHandler_PUTS [OF assms])
  next
    case (Some y)
    from puts_loop_Some_zero [OF this] have ?Z by fastforce
    with that show ?thesis by simp
  qed
  have "(\<exists>s'. trapHandler instr s = Inr s') \<longleftrightarrow> ?Z"
    using ret div by (cases ?Z) auto
  then show ?thesis using div scan by blast
qed

theorem puts_terminates_iff_witness:
  "(\<exists>s'. trapHandler 0xF022
      ((boot [])\<lparr>memory := (\<lambda>_. 0)(0x4000 := 0x48), registers := (\<lambda>_. 0)(R_R0 := 0x4000)\<rparr>) = Inr s') \<and>
   trapHandler 0xF022
      ((boot [])\<lparr>memory := (\<lambda>a. if 0x4000 \<le> a then 1 else 0),
                  registers := (\<lambda>_. 0)(R_R0 := 0x4000)\<rparr>) = Inl Diverges"
proof -
  let ?s = "(boot [])\<lparr>memory := (\<lambda>_. 0)(0x4000 := 0x48), registers := (\<lambda>_. 0)(R_R0 := 0x4000)\<rparr>"
  let ?t = "(boot [])\<lparr>memory := (\<lambda>a. if 0x4000 \<le> a then 1 else 0),
                  registers := (\<lambda>_. 0)(R_R0 := 0x4000)\<rparr>"
  have a: "(0xF022 :: int) AND 0xFF = TRAP_PUTS" by simp
  have "\<exists>a. reg_get ?s R_R0 \<le> a \<and> a \<le> 0xFFFF \<and> memory ?s a = 0"
    by (intro exI [of _ "0x4001"]) (simp add: reg_get_def)
  then have 1: "\<exists>s'. trapHandler 0xF022 ?s = Inr s'"
    using puts_terminates_iff [OF a, of ?s] by blast
  have "\<not> (\<exists>a. reg_get ?t R_R0 \<le> a \<and> a \<le> 0xFFFF \<and> memory ?t a = 0)"
    by (simp add: reg_get_def)
  then have 2: "trapHandler 0xF022 ?t = Inl Diverges"
    using puts_terminates_iff [OF a, of ?t] by blast
  from 1 2 show ?thesis by blast
qed

section \<open>Effective addresses\<close>

text \<open>
  Claim C1 says that every effective address is reduced modulo \<open>2 ^ 16\<close> before it
  indexes memory. The handlers pass the unreduced sum to \<open>memRead\<close> and \<open>memWrite\<close>:
  a sum below 0 or at or above 65536 names no cell, the load yields \<^verbatim>\<open>undefined\<close>, stored
  as 0, and the store is dropped. With \<open>R1 = 0\<close>, LDR \<open>R0, R1, #-1\<close> does not read the 5
  at \<open>0xFFFF\<close>, and STR \<open>R0, R1, #-1\<close> leaves memory as it was; with \<open>PC = 0xFFFF\<close>,
  LD \<open>R0, #1\<close> does not read the 5 at address 0.
\<close>

theorem address_sum_not_reduced:
  "loadRegister 0x607F ((boot [])\<lparr>memory := (\<lambda>_. 0)(0xFFFF := 5)\<rparr>) =
     Inr ((boot [])\<lparr>memory := (\<lambda>_. 0)(0xFFFF := 5),
                    registers := (\<lambda>_. 0)(R_PC := 0x3000, R_R0 := 0, R_COND := 2)\<rparr>) \<and>
   storeRegister 0x707F ((boot [])\<lparr>registers := (\<lambda>_. 0)(R_R0 := 7)\<rparr>) =
     (boot [])\<lparr>registers := (\<lambda>_. 0)(R_R0 := 7)\<rparr> \<and>
   load 0x2001 ((boot [])\<lparr>memory := (\<lambda>_. 0)(0 := 5), registers := (\<lambda>_. 0)(R_PC := 0xFFFF)\<rparr>) =
     Inr ((boot [])\<lparr>memory := (\<lambda>_. 0)(0 := 5),
                    registers := (\<lambda>_. 0)(R_PC := 0xFFFF, R_R0 := 0, R_COND := 2)\<rparr>)"
  by (simp add: loadRegister_def storeRegister_def load_def signExtend_def memRead_def memWrite_def
      mem_get_def mem_set_def reg_get_def reg_set_def updateFlags_def ToUint16_def boot_def)

section \<open>Loading an image\<close>

text \<open>
  Claim C2 says that a stream of odd length loads as the stream without its last byte.
  The loop guard \<^verbatim>\<open>(pos + 1) * 2 < image.length\<close> admits a read whose second byte lies past
  the end of the buffer, so for every stream of odd length the loader ends in the
  \<^verbatim>\<open>RangeError\<close> of \<open>readUInt16BE\<close>.
\<close>

theorem readImage_odd_length_fails:
  assumes "odd (length img)"
  shows "readImage img s = Inl RangeError"
proof (cases "length img < 2")
  case True
  then show ?thesis by (simp add: readImage_def readUInt16BE_def)
next
  case False
  then have "length img \<noteq> 2 \<and> 2 \<le> length img" using assms by auto
  then have "(0 + 1) * 2 < length img" by simp
  from readImage_loop_odd [OF assms this] show ?thesis
    using False by (simp add: readImage_def readUInt16BE_def)
qed

theorem readImage_odd_length_fails_witness:
  "readImage [0x30, 0x00, 0x12] (boot []) = Inl RangeError \<and>
   readImage [0x30, 0x00] (boot []) = Inr (boot [])"
proof -
  have "odd (length [0x30, 0x00, 0x12 :: 8 word])" by simp
  from readImage_odd_length_fails [OF this]
  have "readImage [0x30, 0x00, 0x12] (boot []) = Inl RangeError" .
  moreover have "readImage [0x30, 0x00] (boot []) = Inr (boot [])"
    by (simp add: readImage_def readImage_loop.simps readUInt16BE_def)
  ultimately show ?thesis by simp
qed

text \<open>
  Claim C3, as stated: for every stream of origin \<open>O\<close> and words \<open>w\<^sub>0 \<dots> w\<^sub>k\<close>, loading
  leaves \<open>M[O + i] = w\<^sub>i\<close> for all \<open>i \<le> k\<close>. This fails when the image runs past the last
  cell: with \<open>O = 0xFFFF\<close> and the words 1, 2 the second word is stored nowhere; the
  index \<open>O + 1 = 65536\<close> names no cell and address 0 still holds 0.
\<close>

theorem readImage_places_words_counterexample:
  "readImage (be_bytes 0xFFFF @ concat (map be_bytes [1, 2])) (boot []) =
     Inr ((boot [])\<lparr>memory := (\<lambda>_. 0)(0xFFFF := 1)\<rparr>) \<and>
   mem_get ((boot [])\<lparr>memory := (\<lambda>_. 0)(0xFFFF := 1)\<rparr>) (Num (0xFFFF + 1)) = Undefined \<and>
   mem_get ((boot [])\<lparr>memory := (\<lambda>_. 0)(0xFFFF := 1)\<rparr>) (Num 0) = Num 0"
  by (simp add: be_bytes_def readImage_def readImage_loop.simps readUInt16BE_def mem_set_def
      mem_get_def boot_def ToUint16_def)

text \<open>
  Claim C3, amended. For every stream of origin \<open>O\<close> followed by the big-endian words
  \<open>w\<^sub>0 \<dots> w\<^sub>k\<close>, the loader run on an all-zero memory returns and leaves
  \<open>M[O + i] = w\<^sub>i\<close> for every \<open>i \<le> k\<close> with \<open>O + i \<le> 0xFFFF\<close>, and \<open>M[j] = 0\<close> for every
  address \<open>j\<close> outside \<open>[O, O + k]\<close>.
\<close>

theorem readImage_places_words:
  assumes "memory s = (\<lambda>_. 0)"
  shows "\<exists>s'. readImage (be_bytes origin @ concat (map be_bytes ws)) s = Inr s' \<and>
    (\<forall>i. i < length ws \<and> uint origin + int i < MEMORY_SIZE \<longrightarrow>
        memory s' (uint origin + int i) = ws ! i) \<and>
    (\<forall>j. 0 \<le> j \<and> j < MEMORY_SIZE \<and> \<not> (uint origin \<le> j \<and> j < uint origin + int (length ws)) \<longrightarrow>
        memory s' j = 0)"
proof -
  obtain s' where s': "readImage_loop (be_bytes origin @ concat (map be_bytes ws)) (uint origin) 0 s = Inr s'"
    "memory s' = (\<lambda>j. if uint origin + int 0 \<le> j \<and> j < uint origin + int (length ws) \<and> 0 \<le> j \<and> j < MEMORY_SIZE
                     then ws ! nat (j - uint origin) else memory s j)"
    using readImage_loop_words [of 0 ws origin "uint origin" s] by auto
  have "readImage (be_bytes origin @ concat (map be_bytes ws)) s = Inr s'"
    by (simp add: readImage_def readUInt16BE_origin s'(1))
  moreover have "\<forall>i. i < length ws \<and> uint origin + int i < MEMORY_SIZE \<longrightarrow>
        memory s' (uint origin + int i) = ws ! i"
    by (simp add: s'(2))
  moreover have "\<forall>j. 0 \<le> j \<and> j < MEMORY_SIZE \<and> \<not> (uint origin \<le> j \<and> j < uint origin + int (length ws)) \<longrightarrow>
        memory s' j = 0"
    by (auto simp add: s'(2) assms)
  ultimately show ?thesis by blast
qed

theorem readImage_places_words_witness:
  "\<exists>s'. readImage [0x30, 0x00, 0x12, 0x34, 0xAB, 0xCD] (boot []) = Inr s' \<and>
     memory s' 0x3000 = 0x1234 \<and> memory s' 0x3001 = 0xABCD \<and>
     memory s' 0x2FFF = 0 \<and> memory s' 0x3002 = 0"
proof -
  have z: "memory (boot []) = (\<lambda>_. 0)" by (simp add: boot_def)
  have e: "be_bytes 0x3000 @ concat (map be_bytes [0x1234, 0xABCD]) = [0x30, 0x00, 0x12, 0x34, 0xAB, 0xCD]"
    by (simp add: be_bytes_def)
  obtain s' where s': "readImage [0x30, 0x00, 0x12, 0x34, 0xAB, 0xCD] (boot []) = Inr s'"
    and w: "\<forall>i. i < length [0x1234, 0xABCD :: 16 word] \<and> uint (0x3000 :: 16 word) + int i < MEMORY_SIZE \<longrightarrow>
        memory s' (uint (0x3000 :: 16 word) + int i) = [0x1234, 0xABCD] ! i"
    and o: "\<forall>j. 0 \<le> j \<and> j < MEMORY_SIZE \<and>
        \<not> (uint (0x3000 :: 16 word) \<le> j \<and> j < uint (0x3000 :: 16 word) + int (length [0x1234, 0xABCD :: 16 word])) \<longrightarrow>
        memory s' j = 0"
    using readImage_places_words [OF z, of "0x3000" "[0x1234, 0xABCD]"] unfolding e by blast
  from w [rule_format, of 0] have "memory s' 0x3000 = 0x1234" by simp
  moreover from w [rule_format, of 1] have "memory s' 0x3001 = 0xABCD" by simp
  moreover from o [rule_format, of "0x2FFF"] have "memory s' 0x2FFF = 0" by simp
  moreover from o [rule_format, of "0x3002"] have "memory s' 0x3002 = 0" by simp
  ultimately show ?thesis using s' by blast
qed

end
